theory Spec2Isabelle
  imports Complex_Main "HOL-Library.Log_Nat"
begin

section \<open>Python floats\<close>

text \<open>
  Every number of \<^verbatim>\<open>app.py\<close> past the widgets is a Python \<^verbatim>\<open>float\<close>, an IEEE binary64
  value: a rational, and each arithmetic operation returns the exact result rounded to 53
  significant bits, to nearest, ties to even. The model keeps the values as rationals and
  writes the rounding out. \<open>Binary64\<close> is that arithmetic, with the exponent range left
  unbounded (no overflow to infinity, no subnormals, no NaN: the simulation starts from
  integers and percentages and runs 24 months). \<open>Exact\<close> is the same program without
  rounding; statements made "up to floating-point tolerance" are read in it.
\<close>

datatype arith = Exact | Binary64

definition round_half_even :: "rat \<Rightarrow> int" where
  "round_half_even x =
     (let f = \<lfloor>x\<rfloor>; d = x - of_int f in
      if d < 1 / 2 then f else if 1 / 2 < d then f + 1 else if even f then f else f + 1)"

definition pow2 :: "int \<Rightarrow> rat" where
  "pow2 e = (if 0 \<le> e then 2 ^ nat e else 1 / 2 ^ nat (- e))"

text \<open>The binary exponent of a nonzero \<open>x\<close>: \<open>pow2 (expo x) \<le> \<bar>x\<bar> < pow2 (expo x + 1)\<close>.\<close>

definition expo :: "rat \<Rightarrow> int" where
  "expo x =
     (let a = \<bar>x\<bar> in
      if 1 \<le> a then bitlen \<lfloor>a\<rfloor> - 1 else - bitlen (\<lceil>1 / a\<rceil> - 1))"

definition fl :: "rat \<Rightarrow> rat" where
  "fl x =
     (if x = 0 then 0
      else let u = pow2 (expo x - 52) in of_int (round_half_even (x / u)) * u)"

fun rnd :: "arith \<Rightarrow> rat \<Rightarrow> rat" where
  "rnd Exact x = x"
| "rnd Binary64 x = fl x"

definition fadd :: "arith \<Rightarrow> rat \<Rightarrow> rat \<Rightarrow> rat" where
  "fadd ar x y = rnd ar (x + y)"

definition fsub :: "arith \<Rightarrow> rat \<Rightarrow> rat \<Rightarrow> rat" where
  "fsub ar x y = rnd ar (x - y)"

definition fmul :: "arith \<Rightarrow> rat \<Rightarrow> rat \<Rightarrow> rat" where
  "fmul ar x y = rnd ar (x * y)"

definition fdiv :: "arith \<Rightarrow> rat \<Rightarrow> rat \<Rightarrow> rat" where
  "fdiv ar x y = rnd ar (x / y)"

text \<open>\<^verbatim>\<open>float(n)\<close> of an integer, and a decimal literal such as \<^verbatim>\<open>36.45\<close>.\<close>

definition float_of_int :: "arith \<Rightarrow> int \<Rightarrow> rat" where
  "float_of_int ar n = rnd ar (of_int n)"

definition literal :: "arith \<Rightarrow> rat \<Rightarrow> rat" where
  "literal ar q = rnd ar q"

text \<open>
  \<^verbatim>\<open>round(x, 1)\<close>: the exact value of \<open>x\<close> rounded to one decimal, ties to even, and the
  decimal read back as a float.
\<close>

definition py_round1 :: "arith \<Rightarrow> rat \<Rightarrow> rat" where
  "py_round1 ar x = rnd ar (of_int (round_half_even (x * 10)) / 10)"

text \<open>\<^verbatim>\<open>sum(...)\<close> starts at 0 and adds from left to right.\<close>

definition py_sum :: "arith \<Rightarrow> rat list \<Rightarrow> rat" where
  "py_sum ar xs = foldl (fadd ar) 0 xs"

section \<open>Errors, dictionaries and loops\<close>

datatype error = KeyError string

definition bind :: "error + 'a \<Rightarrow> ('a \<Rightarrow> error + 'b) \<Rightarrow> error + 'b" where
  "bind r f = (case r of Inl e \<Rightarrow> Inl e | Inr v \<Rightarrow> f v)"

text \<open>\<^verbatim>\<open>d[k]\<close> raises \<^verbatim>\<open>KeyError\<close> on a missing key.\<close>

definition getitem :: "(string \<rightharpoonup> 'a) \<Rightarrow> string \<Rightarrow> error + 'a" where
  "getitem d k = (case d k of None \<Rightarrow> Inl (KeyError k) | Some v \<Rightarrow> Inr v)"

text \<open>\<^verbatim>\<open>for x in xs: body\<close>, the state threaded through, stopping at the first exception.\<close>

fun for_each :: "('a \<Rightarrow> 's \<Rightarrow> error + 's) \<Rightarrow> 'a list \<Rightarrow> 's \<Rightarrow> error + 's" where
  "for_each body [] s = Inr s"
| "for_each body (x # xs) s = bind (body x s) (for_each body xs)"

section \<open>Bands and inputs\<close>

record defaults =
  d_start :: int
  d_hires :: int
  d_attr :: rat
  d_promo :: rat

record band =
  team :: string
  segment :: string
  promo_to :: "string option"
  band_defaults :: defaults

definition TEAMS :: "band list" where
  "TEAMS =
    [\<lparr>team = ''1-2'', segment = ''SMB'', promo_to = Some ''3-4'',
        band_defaults = \<lparr>d_start = 10, d_hires = 1, d_attr = 2, d_promo = 5\<rparr>\<rparr>,
     \<lparr>team = ''3-4'', segment = ''SMB'', promo_to = Some ''5-9'',
        band_defaults = \<lparr>d_start = 36, d_hires = 20, d_attr = 5, d_promo = 30\<rparr>\<rparr>,
     \<lparr>team = ''5-9'', segment = ''SMB'', promo_to = Some ''10-19'',
        band_defaults = \<lparr>d_start = 15, d_hires = 15, d_attr = 2, d_promo = 20\<rparr>\<rparr>,
     \<lparr>team = ''10-19'', segment = ''CMRL'', promo_to = Some ''20-29'',
        band_defaults = \<lparr>d_start = 88, d_hires = 4, d_attr = 3, d_promo = 10\<rparr>\<rparr>,
     \<lparr>team = ''20-29'', segment = ''CMRL'', promo_to = Some ''30-49'',
        band_defaults = \<lparr>d_start = 44, d_hires = 1, d_attr = 2, d_promo = 10\<rparr>\<rparr>,
     \<lparr>team = ''30-49'', segment = ''CMRL'', promo_to = Some ''50-99'',
        band_defaults = \<lparr>d_start = 30, d_hires = 1, d_attr = 2, d_promo = 7\<rparr>\<rparr>,
     \<lparr>team = ''50-99'', segment = ''MM'', promo_to = Some ''100-149'',
        band_defaults = \<lparr>d_start = 27, d_hires = 0, d_attr = 2, d_promo = 6\<rparr>\<rparr>,
     \<lparr>team = ''100-149'', segment = ''MM'', promo_to = None,
        band_defaults = \<lparr>d_start = 10, d_hires = 0, d_attr = 2, d_promo = 0\<rparr>\<rparr>]"

definition TEAM_ORDER_of :: "band list \<Rightarrow> string list" where
  "TEAM_ORDER_of teams = map team teams"

definition TEAM_ORDER :: "string list" where
  "TEAM_ORDER = TEAM_ORDER_of TEAMS"

text \<open>
  What the four widgets of a band return: two integers (\<^verbatim>\<open>number_input\<close> with integer
  bounds) and two floats (the sliders, in percent).
\<close>

record widgets =
  w_start :: int
  w_hires :: int
  w_attr :: rat
  w_promo :: rat

text \<open>The widgets untouched: each returns its default value.\<close>

definition default_widgets :: "band \<Rightarrow> widgets" where
  "default_widgets b =
     \<lparr>w_start = d_start (band_defaults b), w_hires = d_hires (band_defaults b),
      w_attr = d_attr (band_defaults b), w_promo = d_promo (band_defaults b)\<rparr>"

text \<open>One entry of \<^verbatim>\<open>inputs\<close> (lines 121-128).\<close>

record band_input =
  in_segment :: string
  starting :: rat
  hires :: rat
  attr :: rat
  promo :: rat
  in_promo_to :: "string option"

definition band_input_of :: "arith \<Rightarrow> band \<Rightarrow> widgets \<Rightarrow> band_input" where
  "band_input_of ar b w =
     (let promo_w = (if promo_to b = None then 0 else w_promo w) in
      \<lparr>in_segment = segment b,
       starting = float_of_int ar (w_start w),
       hires = float_of_int ar (w_hires w),
       attr = fdiv ar (w_attr w) 100,
       promo = fdiv ar promo_w 100,
       in_promo_to = promo_to b\<rparr>)"

text \<open>The loop of lines 60-128: \<^verbatim>\<open>inputs[team] = {...}\<close> for every band of \<^verbatim>\<open>TEAMS\<close>.\<close>

definition inputs_of ::
  "arith \<Rightarrow> band list \<Rightarrow> (string \<Rightarrow> widgets) \<Rightarrow> (string \<rightharpoonup> band_input)" where
  "inputs_of ar teams ui =
     fold (\<lambda>b m. m(team b \<mapsto> band_input_of ar b (ui (team b)))) teams Map.empty"

section \<open>Months\<close>

record date =
  year :: nat
  month :: nat

text \<open>\<^verbatim>\<open>pd.date_range(start="2025-01-01", end="2026-12-01", freq="MS")\<close>.\<close>

definition months_index :: "date list" where
  "months_index = map (\<lambda>i. \<lparr>year = 2025 + i div 12, month = i mod 12 + 1\<rparr>) [0..<24]"

definition is_quarter_end :: "date \<Rightarrow> bool" where
  "is_quarter_end dt = (month dt \<in> {3, 6, 9, 12})"

definition digit :: "nat \<Rightarrow> char" where
  "digit n = ''0123456789'' ! (n mod 10)"

text \<open>\<^verbatim>\<open>dt.strftime("%Y-%m")\<close>.\<close>

definition strftime_Y_m :: "date \<Rightarrow> string" where
  "strftime_Y_m dt =
     [digit (year dt div 1000), digit (year dt div 100), digit (year dt div 10),
      digit (year dt), CHR ''-'', digit (month dt div 10), digit (month dt)]"

section \<open>The simulation\<close>

type_synonym headcount = "string \<rightharpoonup> rat"
type_synonym inputs = "string \<rightharpoonup> band_input"

record promo_row =
  Quarter_End :: string
  From_Band :: string
  To_Band :: string
  Promoted_HC :: rat

text \<open>
  A row of the monthly table: the month, one column per band and the total. The band
  columns are kept apart from the two fixed columns.
\<close>

record row =
  Month :: date
  cols :: "string \<rightharpoonup> rat"
  Total :: rat

text \<open>Line 138: \<^verbatim>\<open>hc = {t: inputs[t]["starting"] for t in TEAM_ORDER}\<close>.\<close>

definition init_body :: "inputs \<Rightarrow> string \<Rightarrow> headcount \<Rightarrow> error + headcount" where
  "init_body inp t hc = bind (getitem inp t) (\<lambda>b. Inr (hc(t \<mapsto> starting b)))"

definition init_hc :: "inputs \<Rightarrow> string list \<Rightarrow> error + headcount" where
  "init_hc inp order = for_each (init_body inp) order Map.empty"

text \<open>Line 146: \<^verbatim>\<open>hc[t] = hc[t] * (1.0 - inputs[t]["attr"])\<close>.\<close>

definition attrition_body :: "arith \<Rightarrow> inputs \<Rightarrow> string \<Rightarrow> headcount \<Rightarrow> error + headcount" where
  "attrition_body ar inp t hc =
     bind (getitem hc t) (\<lambda>h.
     bind (getitem inp t) (\<lambda>b.
     Inr (hc(t \<mapsto> fmul ar h (fsub ar 1 (attr b))))))"

definition attrition :: "arith \<Rightarrow> inputs \<Rightarrow> string list \<Rightarrow> headcount \<Rightarrow> error + headcount" where
  "attrition ar inp order hc = for_each (attrition_body ar inp) order hc"

text \<open>Line 150: \<^verbatim>\<open>hc[t] = hc[t] + inputs[t]["hires"]\<close>.\<close>

definition hires_body :: "arith \<Rightarrow> inputs \<Rightarrow> string \<Rightarrow> headcount \<Rightarrow> error + headcount" where
  "hires_body ar inp t hc =
     bind (getitem hc t) (\<lambda>h.
     bind (getitem inp t) (\<lambda>b.
     Inr (hc(t \<mapsto> fadd ar h (hires b)))))"

definition add_hires :: "arith \<Rightarrow> inputs \<Rightarrow> string list \<Rightarrow> headcount \<Rightarrow> error + headcount" where
  "add_hires ar inp order hc = for_each (hires_body ar inp) order hc"

text \<open>Line 154: \<^verbatim>\<open>moves = {t: 0.0 for t in TEAM_ORDER}\<close>.\<close>

definition init_moves :: "string list \<Rightarrow> headcount" where
  "init_moves order = fold (\<lambda>t m. m(t \<mapsto> 0)) order Map.empty"

text \<open>Lines 155-159: the amounts, all read from the headcount \<open>hc\<close> before any move.\<close>

definition moves_body ::
  "arith \<Rightarrow> inputs \<Rightarrow> headcount \<Rightarrow> string \<Rightarrow> headcount \<Rightarrow> error + headcount" where
  "moves_body ar inp hc t moves =
     bind (getitem inp t) (\<lambda>b.
     case in_promo_to b of
       None \<Rightarrow> Inr moves
     | Some to_team \<Rightarrow>
         bind (getitem hc t) (\<lambda>h.
         bind (getitem inp t) (\<lambda>b'.
         Inr (moves(t \<mapsto> fmul ar h (promo b'))))))"

definition compute_moves ::
  "arith \<Rightarrow> inputs \<Rightarrow> string list \<Rightarrow> headcount \<Rightarrow> error + headcount" where
  "compute_moves ar inp order hc = for_each (moves_body ar inp hc) order (init_moves order)"

text \<open>Lines 162-175: one move applied, and its row appended to \<^verbatim>\<open>promo_rows\<close>.\<close>

definition apply_body ::
  "arith \<Rightarrow> inputs \<Rightarrow> headcount \<Rightarrow> date \<Rightarrow> string \<Rightarrow>
   headcount \<times> promo_row list \<Rightarrow> error + headcount \<times> promo_row list" where
  "apply_body ar inp moves dt t st =
     (case st of (hc, promo_rows) \<Rightarrow>
     bind (getitem inp t) (\<lambda>b.
     case in_promo_to b of
       None \<Rightarrow> Inr (hc, promo_rows)
     | Some to_team \<Rightarrow>
         bind (getitem moves t) (\<lambda>amt.
         bind (getitem hc t) (\<lambda>h.
         let hc1 = hc(t \<mapsto> fsub ar h amt) in
         bind (getitem hc1 to_team) (\<lambda>h'.
         let hc2 = hc1(to_team \<mapsto> fadd ar h' amt) in
         Inr (hc2, promo_rows @
                [\<lparr>Quarter_End = strftime_Y_m dt, From_Band = t, To_Band = to_team,
                  Promoted_HC = py_round1 ar amt\<rparr>]))))))"

definition apply_moves ::
  "arith \<Rightarrow> inputs \<Rightarrow> headcount \<Rightarrow> date \<Rightarrow> string list \<Rightarrow>
   headcount \<times> promo_row list \<Rightarrow> error + headcount \<times> promo_row list" where
  "apply_moves ar inp moves dt order st = for_each (apply_body ar inp moves dt) order st"

text \<open>Lines 153-175, the body of \<^verbatim>\<open>if is_quarter_end(dt)\<close>.\<close>

definition promotions ::
  "arith \<Rightarrow> inputs \<Rightarrow> string list \<Rightarrow> date \<Rightarrow>
   headcount \<times> promo_row list \<Rightarrow> error + headcount \<times> promo_row list" where
  "promotions ar inp order dt st =
     bind (compute_moves ar inp order (fst st)) (\<lambda>moves.
     apply_moves ar inp moves dt order st)"

text \<open>Lines 178-182: the row of the month.\<close>

definition row_body :: "headcount \<Rightarrow> string \<Rightarrow> headcount \<Rightarrow> error + headcount" where
  "row_body hc t r = bind (getitem hc t) (\<lambda>h. Inr (r(t \<mapsto> max 0 h)))"

fun getitems :: "headcount \<Rightarrow> string list \<Rightarrow> error + rat list" where
  "getitems r [] = Inr []"
| "getitems r (t # ts) = bind (getitem r t) (\<lambda>v. bind (getitems r ts) (\<lambda>vs. Inr (v # vs)))"

definition record_row :: "arith \<Rightarrow> string list \<Rightarrow> date \<Rightarrow> headcount \<Rightarrow> error + row" where
  "record_row ar order dt hc =
     bind (for_each (row_body hc) order Map.empty) (\<lambda>r.
     bind (getitems r order) (\<lambda>vs.
     Inr \<lparr>Month = dt, cols = r, Total = py_sum ar vs\<rparr>))"

text \<open>Lines 143-182: one month. The state is \<^verbatim>\<open>hc\<close>, \<^verbatim>\<open>rows\<close> and \<^verbatim>\<open>promo_rows\<close>.\<close>

type_synonym sim_state = "headcount \<times> row list \<times> promo_row list"

definition month_body ::
  "arith \<Rightarrow> inputs \<Rightarrow> string list \<Rightarrow> date \<Rightarrow> sim_state \<Rightarrow> error + sim_state" where
  "month_body ar inp order dt st =
     (case st of (hc, rows, promo_rows) \<Rightarrow>
     bind (attrition ar inp order hc) (\<lambda>hc1.
     bind (add_hires ar inp order hc1) (\<lambda>hc2.
     bind (if is_quarter_end dt then promotions ar inp order dt (hc2, promo_rows)
           else Inr (hc2, promo_rows)) (\<lambda>(hc3, promo_rows').
     bind (record_row ar order dt hc3) (\<lambda>r.
     Inr (hc3, rows @ [r], promo_rows'))))))"

text \<open>
  \<^verbatim>\<open>simulate\<close> (lines 135-186), with the globals it reads as parameters: the arithmetic,
  \<^verbatim>\<open>inputs\<close>, \<^verbatim>\<open>TEAM_ORDER\<close> and the months. \<open>run_months\<close> is the loop with its final state,
  \<open>simulate_on\<close> returns the two tables.
\<close>

definition run_months ::
  "arith \<Rightarrow> inputs \<Rightarrow> string list \<Rightarrow> date list \<Rightarrow> error + sim_state" where
  "run_months ar inp order dates =
     bind (init_hc inp order) (\<lambda>hc.
     for_each (month_body ar inp order) dates (hc, [], []))"

definition simulate_on ::
  "arith \<Rightarrow> inputs \<Rightarrow> string list \<Rightarrow> date list \<Rightarrow> error + row list \<times> promo_row list" where
  "simulate_on ar inp order dates =
     bind (run_months ar inp order dates) (\<lambda>(hc, rows, promo_rows). Inr (rows, promo_rows))"

definition simulate :: "arith \<Rightarrow> (string \<Rightarrow> widgets) \<Rightarrow> error + row list \<times> promo_row list" where
  "simulate ar ui = simulate_on ar (inputs_of ar TEAMS ui) TEAM_ORDER months_index"

section \<open>The simple single-pool model\<close>

text \<open>
  Lines 297-305. \<^verbatim>\<open>hc\<close> starts as the integer of the widget and is a float from the first
  multiplication on; Python converts the integer operand of a mixed operation as
  \<^verbatim>\<open>float(n)\<close> does.
\<close>

definition simple_body :: "arith \<Rightarrow> rat \<Rightarrow> int \<Rightarrow> date \<Rightarrow> rat \<times> rat list \<Rightarrow> rat \<times> rat list" where
  "simple_body ar monthly_attrition monthly_hires m st =
     (case st of (hc, headcount) \<Rightarrow>
      let hc1 = fmul ar hc (fsub ar 1 (fdiv ar monthly_attrition 100));
          hc2 = fadd ar hc1 (float_of_int ar monthly_hires)
      in (hc2, headcount @ [py_round1 ar hc2]))"

definition simple_model :: "arith \<Rightarrow> int \<Rightarrow> int \<Rightarrow> rat \<Rightarrow> date list \<Rightarrow> rat \<times> rat list" where
  "simple_model ar starting_headcount monthly_hires monthly_attrition months =
     fold (simple_body ar monthly_attrition monthly_hires) months
       (float_of_int ar starting_headcount, [])"

section \<open>Notions of the specification\<close>

text \<open>The successor of a band, as \<^verbatim>\<open>simulate\<close> reads it from \<^verbatim>\<open>inputs\<close>.\<close>

definition successor :: "inputs \<Rightarrow> string \<Rightarrow> string option" where
  "successor inp t = (case inp t of None \<Rightarrow> None | Some b \<Rightarrow> in_promo_to b)"

text \<open>
  The valid configurations of the specification (section 4.1), in its words: band names
  are identities, every successor names another band of the configuration, the rates and
  counts are in range, and exactly one band has no successor.
\<close>

definition spec_valid_band :: "inputs \<Rightarrow> string list \<Rightarrow> string \<Rightarrow> bool" where
  "spec_valid_band inp order t =
     (case inp t of
        None \<Rightarrow> False
      | Some b \<Rightarrow>
          (case in_promo_to b of None \<Rightarrow> True | Some s \<Rightarrow> s \<in> set order \<and> s \<noteq> t) \<and>
          0 \<le> attr b \<and> attr b < 1 \<and> 0 \<le> promo b \<and> promo b \<le> 1 \<and>
          0 \<le> hires b \<and> 0 \<le> starting b)"

definition spec_valid_configuration :: "inputs \<Rightarrow> string list \<Rightarrow> bool" where
  "spec_valid_configuration inp order =
     (distinct order \<and> list_all (spec_valid_band inp order) order \<and>
      length (filter (\<lambda>t. successor inp t = None) order) = 1)"

text \<open>
  What \<^verbatim>\<open>simulate\<close> itself needs of its globals: \<^verbatim>\<open>TEAM_ORDER\<close> lists each band once,
  every band of it has an entry in \<^verbatim>\<open>inputs\<close>, and every successor is a band of it.
\<close>

definition well_formed :: "inputs \<Rightarrow> string list \<Rightarrow> bool" where
  "well_formed inp order =
     (distinct order \<and>
      list_all (\<lambda>t. case inp t of
                       None \<Rightarrow> False
                     | Some b \<Rightarrow> (case in_promo_to b of None \<Rightarrow> True | Some s \<Rightarrow> s \<in> set order))
        order)"

text \<open>The amount leaving a band at a quarter end, from the headcount \<open>hc\<close> before any move.\<close>

definition amount :: "arith \<Rightarrow> inputs \<Rightarrow> headcount \<Rightarrow> string \<Rightarrow> rat" where
  "amount ar inp hc t =
     (case inp t of
        None \<Rightarrow> 0
      | Some b \<Rightarrow>
          (case in_promo_to b of
             None \<Rightarrow> 0
           | Some s \<Rightarrow> (case hc t of None \<Rightarrow> 0 | Some h \<Rightarrow> fmul ar h (promo b))))"

text \<open>The rows a quarter end adds to the promotion table: one per band with a successor.\<close>

definition promotion_events ::
  "arith \<Rightarrow> inputs \<Rightarrow> headcount \<Rightarrow> date \<Rightarrow> string list \<Rightarrow> promo_row list" where
  "promotion_events ar inp hc dt order =
     concat (map (\<lambda>t. case successor inp t of
                         None \<Rightarrow> []
                       | Some s \<Rightarrow>
                           [\<lparr>Quarter_End = strftime_Y_m dt, From_Band = t, To_Band = s,
                             Promoted_HC = py_round1 ar (amount ar inp hc t)\<rparr>])
               order)"

text \<open>
  The promotion step with the moves applied in another order \<open>order'\<close> than the one they
  were computed in: \<^verbatim>\<open>simulate\<close> itself uses \<^verbatim>\<open>TEAM_ORDER\<close> for both loops.
\<close>

definition promotions_shuffled ::
  "arith \<Rightarrow> inputs \<Rightarrow> string list \<Rightarrow> string list \<Rightarrow> date \<Rightarrow>
   headcount \<times> promo_row list \<Rightarrow> error + headcount \<times> promo_row list" where
  "promotions_shuffled ar inp order order' dt st =
     bind (compute_moves ar inp order (fst st)) (\<lambda>moves.
     apply_moves ar inp moves dt order' st)"

text \<open>
  What a band \<open>u\<close> gains, in exact arithmetic, when the bands \<open>ts\<close> apply their moves: the
  amounts \<open>a t\<close> of the bands promoting into \<open>u\<close>, less its own.
\<close>

definition net_flow :: "inputs \<Rightarrow> (string \<Rightarrow> rat) \<Rightarrow> string list \<Rightarrow> string \<Rightarrow> rat" where
  "net_flow inp a ts u =
     (\<Sum>t\<leftarrow>ts. case successor inp t of
                None \<Rightarrow> 0
              | Some s \<Rightarrow> (if s = u then a t else 0) - (if t = u then a t else 0))"

text \<open>The grand total of a headcount state, summed over the bands.\<close>

definition total_headcount :: "string list \<Rightarrow> headcount \<Rightarrow> rat" where
  "total_headcount order hc = (\<Sum>t\<leftarrow>order. case hc t of None \<Rightarrow> 0 | Some h \<Rightarrow> h)"

text \<open>The two tables of a run, the band columns read in a given order.\<close>

definition tables ::
  "string list \<Rightarrow> error + row list \<times> promo_row list \<Rightarrow>
   error + (date \<times> rat option list \<times> rat) list \<times> promo_row list" where
  "tables order res =
     (case res of
        Inl e \<Rightarrow> Inl e
      | Inr (rows, promo_rows) \<Rightarrow>
          Inr (map (\<lambda>r. (Month r, map (cols r) order, Total r)) rows, promo_rows))"

text \<open>A headcount state read at given bands.\<close>

definition at_bands :: "string list \<Rightarrow> error + headcount \<Rightarrow> error + rat option list" where
  "at_bands order res = (case res of Inl e \<Rightarrow> Inl e | Inr hc \<Rightarrow> Inr (map hc order))"

definition headcount_after ::
  "error + headcount \<times> promo_row list \<Rightarrow> error + headcount" where
  "headcount_after res = (case res of Inl e \<Rightarrow> Inl e | Inr (hc, promo_rows) \<Rightarrow> Inr hc)"

definition final_headcount :: "error + sim_state \<Rightarrow> error + headcount" where
  "final_headcount res = (case res of Inl e \<Rightarrow> Inl e | Inr (hc, rows, promo_rows) \<Rightarrow> Inr hc)"

section \<open>The example chain of the specification\<close>

text \<open>
  Section 8: two bands, A promoting into B; A starts at 100 with no hires, 10 % attrition
  and 50 % promotion, B starts at 0 with no hires and no attrition.
\<close>

definition chain_AB :: "band list" where
  "chain_AB =
    [\<lparr>team = ''A'', segment = ''S'', promo_to = Some ''B'',
        band_defaults = \<lparr>d_start = 100, d_hires = 0, d_attr = 10, d_promo = 50\<rparr>\<rparr>,
     \<lparr>team = ''B'', segment = ''S'', promo_to = None,
        band_defaults = \<lparr>d_start = 0, d_hires = 0, d_attr = 0, d_promo = 0\<rparr>\<rparr>]"

definition widgets_AB :: "string \<Rightarrow> widgets" where
  "widgets_AB t =
     (if t = ''A'' then \<lparr>w_start = 100, w_hires = 0, w_attr = 10, w_promo = 50\<rparr>
      else \<lparr>w_start = 0, w_hires = 0, w_attr = 0, w_promo = 0\<rparr>)"

definition inputs_AB :: "arith \<Rightarrow> inputs" where
  "inputs_AB ar = inputs_of ar chain_AB widgets_AB"

definition jan_to_mar_2025 :: "date list" where
  "jan_to_mar_2025 = take 3 months_index"

section \<open>A chain of three bands\<close>

text \<open>
  A promotes into B and B into C, both at 1 % a quarter; A starts at 1, B at 2 and C at 0,
  with no hires and no attrition: B is a destination and a source at every quarter end.
\<close>

definition chain_ABC :: "band list" where
  "chain_ABC =
    [\<lparr>team = ''A'', segment = ''S'', promo_to = Some ''B'',
        band_defaults = \<lparr>d_start = 1, d_hires = 0, d_attr = 0, d_promo = 1\<rparr>\<rparr>,
     \<lparr>team = ''B'', segment = ''S'', promo_to = Some ''C'',
        band_defaults = \<lparr>d_start = 2, d_hires = 0, d_attr = 0, d_promo = 1\<rparr>\<rparr>,
     \<lparr>team = ''C'', segment = ''S'', promo_to = None,
        band_defaults = \<lparr>d_start = 0, d_hires = 0, d_attr = 0, d_promo = 0\<rparr>\<rparr>]"

definition widgets_ABC :: "string \<Rightarrow> widgets" where
  "widgets_ABC t =
     (if t = ''A'' then \<lparr>w_start = 1, w_hires = 0, w_attr = 0, w_promo = 1\<rparr>
      else if t = ''B'' then \<lparr>w_start = 2, w_hires = 0, w_attr = 0, w_promo = 1\<rparr>
      else \<lparr>w_start = 0, w_hires = 0, w_attr = 0, w_promo = 0\<rparr>)"

definition inputs_ABC :: "arith \<Rightarrow> inputs" where
  "inputs_ABC ar = inputs_of ar chain_ABC widgets_ABC"

definition march_2025 :: date where
  "march_2025 = \<lparr>year = 2025, month = 3\<rparr>"

section \<open>The rounding to binary64\<close>

lemma pow2_powi: "pow2 e = 2 powi e"
  by (simp add: pow2_def power_int_def inverse_eq_divide power_one_over)

lemma pow2_pos [simp]: "0 < pow2 e"
  by (simp add: pow2_powi)

lemma pow2_add: "pow2 (a + b) = pow2 a * pow2 b"
  by (simp add: pow2_powi power_int_add)

lemma pow2_mono: "a \<le> b \<Longrightarrow> pow2 a \<le> pow2 b"
  by (simp add: pow2_powi power_int_increasing)

lemma pow2_nat: "0 \<le> e \<Longrightarrow> pow2 e = 2 ^ nat e"
  by (simp add: pow2_def)

lemma rhe_of_int [simp]: "round_half_even (of_int n) = n"
  by (simp add: round_half_even_def)

lemma rhe_cases: "round_half_even x = \<lfloor>x\<rfloor> \<or> round_half_even x = \<lfloor>x\<rfloor> + 1"
  by (simp add: round_half_even_def Let_def)

lemma rhe_ge_floor: "\<lfloor>x\<rfloor> \<le> round_half_even x"
  using rhe_cases [of x] by linarith

lemma rhe_le_floor1: "round_half_even x \<le> \<lfloor>x\<rfloor> + 1"
  using rhe_cases [of x] by linarith

lemma rhe_mono: "x \<le> y \<Longrightarrow> round_half_even x \<le> round_half_even y"
proof -
  assume xy: "x \<le> y"
  then have fl: "\<lfloor>x\<rfloor> \<le> \<lfloor>y\<rfloor>" by (rule floor_mono)
  show ?thesis
  proof (cases "\<lfloor>x\<rfloor> = \<lfloor>y\<rfloor>")
    case True
    with xy have "x - of_int \<lfloor>x\<rfloor> \<le> y - of_int \<lfloor>y\<rfloor>" by simp
    with True show ?thesis
      by (auto simp: round_half_even_def Let_def)
  next
    case False
    with fl have "\<lfloor>x\<rfloor> + 1 \<le> \<lfloor>y\<rfloor>" by simp
    with rhe_le_floor1 [of x] rhe_ge_floor [of y] show ?thesis by linarith
  qed
qed

lemma rhe_nonneg: "0 \<le> x \<Longrightarrow> 0 \<le> round_half_even x"
  using rhe_mono [of 0 x] rhe_of_int [of 0] by simp

lemma expo_bounds:
  assumes "0 < x"
  shows "pow2 (expo x) \<le> x" and "x < pow2 (expo x + 1)"
proof -
  have "pow2 (expo x) \<le> x \<and> x < pow2 (expo x + 1)"
  proof (cases "1 \<le> x")
    case True
    let ?n = "\<lfloor>x\<rfloor>"
    from True have n: "0 < ?n" by simp
    have e: "expo x = bitlen ?n - 1" using True assms by (simp add: expo_def)
    from n have b1: "1 \<le> bitlen ?n"
      using bitlen_eq_zero_iff [of ?n] bitlen_nonneg [of ?n] by linarith
    from bitlen_bounds [OF n] have lo: "2 ^ nat (bitlen ?n - 1) \<le> ?n"
      and hi: "?n < 2 ^ nat (bitlen ?n)" by auto
    have "(2::rat) ^ nat (bitlen ?n - 1) = of_int (2 ^ nat (bitlen ?n - 1))" by simp
    also have "\<dots> \<le> of_int ?n" using lo by (simp only: of_int_le_iff)
    also have "\<dots> \<le> x" by simp
    finally have 1: "pow2 (expo x) \<le> x" using b1 by (simp add: e pow2_def)
    from hi have "?n + 1 \<le> 2 ^ nat (bitlen ?n)" by simp
    then have "(of_int (?n + 1) :: rat) \<le> of_int (2 ^ nat (bitlen ?n))"
      by (simp only: of_int_le_iff)
    moreover have "x < of_int (?n + 1)" by linarith
    ultimately have "x < 2 ^ nat (bitlen ?n)" by simp
    then have 2: "x < pow2 (expo x + 1)" using b1 by (simp add: e pow2_def)
    from 1 2 show ?thesis ..
  next
    case False
    then have x1: "x < 1" by simp
    let ?m = "\<lceil>1 / x\<rceil>"
    let ?k = "bitlen (?m - 1)"
    have inv: "1 < 1 / x" using assms x1 by simp
    then have m2: "2 \<le> ?m" by linarith
    then have m1: "0 < ?m - 1" by simp
    have e: "expo x = - ?k" using x1 assms by (simp add: expo_def)
    from m1 have k1: "1 \<le> ?k"
      using bitlen_eq_zero_iff [of "?m - 1"] bitlen_nonneg [of "?m - 1"] by linarith
    from bitlen_bounds [OF m1] have lo: "2 ^ nat (?k - 1) \<le> ?m - 1"
      and hi: "?m - 1 < 2 ^ nat ?k" by auto
    have "(of_int (2 ^ nat (?k - 1)) :: rat) \<le> of_int (?m - 1)"
      using lo by (simp only: of_int_le_iff)
    moreover have "of_int (?m - 1) < 1 / x" by linarith
    ultimately have A: "2 ^ nat (?k - 1) < 1 / x" by simp
    from hi have "?m \<le> 2 ^ nat ?k" by simp
    then have mk: "(of_int ?m :: rat) \<le> of_int (2 ^ nat ?k)" by (simp only: of_int_le_iff)
    have "1 / x \<le> of_int ?m" by linarith
    also note mk
    also have "(of_int (2 ^ nat ?k) :: rat) = 2 ^ nat ?k" by simp
    finally have B: "1 / x \<le> 2 ^ nat ?k" .
    have p0: "(0::rat) < 2 ^ nat ?k" "(0::rat) < 2 ^ nat (?k - 1)" by simp_all
    from B assms have 1: "1 / 2 ^ nat ?k \<le> x"
      by (simp add: field_simps)
    from A assms have 2: "x < 1 / 2 ^ nat (?k - 1)"
      by (simp add: field_simps)
    have "pow2 (expo x) = 1 / 2 ^ nat ?k" using k1 by (simp add: e pow2_def)
    moreover have "pow2 (expo x + 1) = 1 / 2 ^ nat (?k - 1)"
    proof (cases "?k = 1")
      case True
      then show ?thesis by (simp add: e pow2_def)
    next
      case False
      with k1 have "1 < ?k" by simp
      then have "nat (- (1 - ?k)) = nat (?k - 1)" by simp
      with \<open>1 < ?k\<close> show ?thesis by (simp add: e pow2_def)
    qed
    ultimately show ?thesis using 1 2 by simp
  qed
  then show "pow2 (expo x) \<le> x" and "x < pow2 (expo x + 1)" by simp_all
qed

lemma expo_unique:
  assumes "pow2 e \<le> x" and "x < pow2 (e + 1)"
  shows "expo x = e"
proof -
  have x0: "0 < x" using assms(1) pow2_pos [of e] by linarith
  note b = expo_bounds [OF x0]
  have "\<not> expo x < e"
  proof
    assume "expo x < e"
    then have "pow2 (expo x + 1) \<le> pow2 e" by (intro pow2_mono) simp
    with b(2) assms(1) show False by linarith
  qed
  moreover have "\<not> e < expo x"
  proof
    assume "e < expo x"
    then have "pow2 (e + 1) \<le> pow2 (expo x)" by (intro pow2_mono) simp
    with b(1) assms(2) show False by linarith
  qed
  ultimately show ?thesis by simp
qed

lemma expo_mono:
  assumes "0 < x" and "x \<le> y"
  shows "expo x \<le> expo y"
proof (rule ccontr)
  assume "\<not> expo x \<le> expo y"
  then have "pow2 (expo y + 1) \<le> pow2 (expo x)" by (intro pow2_mono) simp
  moreover have "0 < y" using assms by simp
  ultimately show False
    using expo_bounds(1) [OF assms(1)] expo_bounds(2) [OF \<open>0 < y\<close>] assms(2) by linarith
qed


lemma pow2_split: "pow2 e = 2 ^ 52 * pow2 (e - 52)"
proof -
  have "pow2 e = pow2 (52 + (e - 52))" by simp
  also have "\<dots> = pow2 52 * pow2 (e - 52)" by (rule pow2_add)
  finally show ?thesis by (simp add: pow2_def)
qed

lemma pow2_Suc: "pow2 (e + 1) = 2 * pow2 e"
proof -
  have "pow2 (e + 1) = pow2 (1 + e)" by (simp add: add.commute)
  also have "\<dots> = pow2 1 * pow2 e" by (rule pow2_add)
  finally show ?thesis by (simp add: pow2_def)
qed

lemma fl_zero [simp]: "fl 0 = 0"
  by (simp add: fl_def)

lemma fl_pos_form:
  assumes "0 < x"
  obtains N where "fl x = of_int N * pow2 (expo x - 52)"
    and "N = round_half_even (x / pow2 (expo x - 52))"
    and "2 ^ 52 \<le> N" and "N \<le> 2 ^ 53"
proof -
  let ?u = "pow2 (expo x - 52)"
  let ?N = "round_half_even (x / ?u)"
  have u: "0 < ?u" by simp
  have "2 ^ 52 * ?u \<le> x" using expo_bounds(1) [OF assms] pow2_split [of "expo x"] by simp
  then have lo: "of_int (2 ^ 52) \<le> x / ?u" using u by (simp add: field_simps)
  have "x < 2 * (2 ^ 52 * ?u)"
    using expo_bounds(2) [OF assms] pow2_split [of "expo x"] pow2_Suc [of "expo x"] by simp
  then have hi: "x / ?u \<le> of_int (2 ^ 53)" using u by (simp add: field_simps)
  have "round_half_even (of_int (2 ^ 52)) \<le> ?N" using lo by (rule rhe_mono)
  then have 1: "2 ^ 52 \<le> ?N" by (simp only: rhe_of_int)
  have "?N \<le> round_half_even (of_int (2 ^ 53))" using hi by (rule rhe_mono)
  then have 2: "?N \<le> 2 ^ 53" by (simp only: rhe_of_int)
  have "fl x = of_int ?N * ?u" using assms by (simp add: fl_def Let_def)
  then show ?thesis using 1 2 that by blast
qed

lemma fl_bounds:
  assumes "0 < x"
  shows "pow2 (expo x) \<le> fl x" and "fl x \<le> pow2 (expo x + 1)"
proof -
  let ?u = "pow2 (expo x - 52)"
  obtain N where f: "fl x = of_int N * ?u" and lo: "2 ^ 52 \<le> N" and hi: "N \<le> 2 ^ 53"
    using fl_pos_form [OF assms] by blast
  have u: "0 < ?u" by simp
  have "(of_int (2 ^ 52) :: rat) \<le> of_int N" using lo by (simp only: of_int_le_iff)
  then have "2 ^ 52 * ?u \<le> of_int N * ?u" using u by simp
  then show "pow2 (expo x) \<le> fl x" using pow2_split [of "expo x"] f by simp
  have "(of_int N :: rat) \<le> of_int (2 ^ 53)" using hi by (simp only: of_int_le_iff)
  then have "of_int N * ?u \<le> 2 ^ 53 * ?u" using u by simp
  then show "fl x \<le> pow2 (expo x + 1)"
    using pow2_split [of "expo x"] pow2_Suc [of "expo x"] f by simp
qed

lemma fl_nonneg: "0 \<le> x \<Longrightarrow> 0 \<le> fl x"
proof (cases "x = 0")
  case True
  then show ?thesis by simp
next
  case False
  assume "0 \<le> x"
  with False have "0 < x" by simp
  from fl_bounds(1) [OF this] pow2_pos [of "expo x"] show ?thesis by linarith
qed

lemma fl_pos: "0 < x \<Longrightarrow> 0 < fl x"
  using fl_bounds(1) [of x] pow2_pos [of "expo x"] by linarith

lemma fl_mono_nonneg:
  assumes "0 \<le> x" and "x \<le> y"
  shows "fl x \<le> fl y"
proof (cases "x = 0")
  case True
  with assms fl_nonneg [of y] show ?thesis by simp
next
  case False
  with assms have x: "0 < x" and y: "0 < y" by simp_all
  have le: "expo x \<le> expo y" using x assms(2) by (rule expo_mono)
  show ?thesis
  proof (cases "expo x = expo y")
    case True
    let ?u = "pow2 (expo y - 52)"
    have u: "0 < ?u" by simp
    have "x / ?u \<le> y / ?u" using assms(2) less_imp_le [OF u] by (rule divide_right_mono)
    then have "round_half_even (x / ?u) \<le> round_half_even (y / ?u)" by (rule rhe_mono)
    then have "(of_int (round_half_even (x / ?u)) :: rat) \<le> of_int (round_half_even (y / ?u))"
      by (simp only: of_int_le_iff)
    then have "of_int (round_half_even (x / ?u)) * ?u \<le> of_int (round_half_even (y / ?u)) * ?u"
      using u by simp
    then show ?thesis using x y True by (simp add: fl_def Let_def)
  next
    case False
    with le have "expo x + 1 \<le> expo y" by simp
    then have "pow2 (expo x + 1) \<le> pow2 (expo y)" by (rule pow2_mono)
    with fl_bounds(2) [OF x] fl_bounds(1) [OF y] show ?thesis by linarith
  qed
qed

lemma fl_idem_pos:
  assumes "0 < x"
  shows "fl (fl x) = fl x"
proof -
  let ?e = "expo x"
  let ?u = "pow2 (?e - 52)"
  obtain N where f: "fl x = of_int N * ?u" and lo: "2 ^ 52 \<le> N" and hi: "N \<le> 2 ^ 53"
    using fl_pos_form [OF assms] by blast
  have u: "0 < ?u" by simp
  have fpos: "0 < fl x" using assms by (rule fl_pos)
  show ?thesis
  proof (cases "N = 2 ^ 53")
    case True
    then have v: "fl x = pow2 (?e + 1)"
      using f pow2_split [of ?e] pow2_Suc [of ?e] by simp
    have "pow2 (?e + 1) < pow2 (?e + 1 + 1)"
      using pow2_Suc [of "?e + 1"] pow2_pos [of "?e + 1"] by linarith
    then have e': "expo (fl x) = ?e + 1" by (intro expo_unique) (simp_all add: v)
    define w where "w = pow2 (expo (fl x) - 52)"
    have w: "0 < w" by (simp add: w_def)
    have w': "w = pow2 (?e + 1 - 52)" by (simp only: w_def e')
    from v pow2_split [of "?e + 1"] have "fl x = 2 ^ 52 * pow2 (?e + 1 - 52)" by (rule trans)
    then have v': "fl x = 2 ^ 52 * w" unfolding w' .
    then have "fl x / w = of_int (2 ^ 52)" using w by simp
    then have "round_half_even (fl x / w) = 2 ^ 52" by (simp only: rhe_of_int)
    moreover have "fl (fl x) = of_int (round_half_even (fl x / w)) * w"
      using fpos by (simp add: fl_def [of "fl x"] Let_def w_def)
    ultimately have "fl (fl x) = 2 ^ 52 * w" by simp
    with v' show ?thesis by simp
  next
    case False
    with hi have "N + 1 \<le> 2 ^ 53" by simp
    then have "(of_int (N + 1) :: rat) \<le> of_int (2 ^ 53)" by (simp only: of_int_le_iff)
    then have "(of_int N :: rat) < 2 ^ 53" by simp
    then have "of_int N * ?u < 2 ^ 53 * ?u" using u by simp
    then have "fl x < pow2 (?e + 1)"
      using f pow2_split [of ?e] pow2_Suc [of ?e] by simp
    with fl_bounds(1) [OF assms] have e': "expo (fl x) = ?e" by (intro expo_unique)
    have "?u \<noteq> 0" using u by linarith
    then have "fl x / ?u = of_int N" using f by simp
    then have "round_half_even (fl x / pow2 (expo (fl x) - 52)) = N"
      by (simp only: e' rhe_of_int)
    then have "fl (fl x) = of_int N * ?u"
      using fpos by (simp add: fl_def [of "fl x"] Let_def e')
    with f show ?thesis by simp
  qed
qed

lemma fl_idem_nonneg: "0 \<le> x \<Longrightarrow> fl (fl x) = fl x"
  using fl_idem_pos [of x] by (cases "x = 0") simp_all

section \<open>Sequencing, lookups and loops\<close>

lemma bind_Inr [simp]: "bind (Inr v) f = f v"
  by (simp add: bind_def)

lemma bind_Inl [simp]: "bind (Inl e) f = Inl e"
  by (simp add: bind_def)

lemma bind_eq_Inr: "bind r f = Inr y \<longleftrightarrow> (\<exists>v. r = Inr v \<and> f v = Inr y)"
  by (cases r) simp_all

lemma getitem_Some [simp]: "d k = Some v \<Longrightarrow> getitem d k = Inr v"
  by (simp add: getitem_def)

lemma getitem_None [simp]: "d k = None \<Longrightarrow> getitem d k = Inl (KeyError k)"
  by (simp add: getitem_def)

lemma getitem_eq_Inr: "getitem d k = Inr v \<longleftrightarrow> d k = Some v"
  by (simp add: getitem_def split: option.splits)

lemma for_each_append:
  "for_each body (xs @ ys) s = bind (for_each body xs s) (for_each body ys)"
  by (induction xs arbitrary: s) (simp_all add: bind_def split: sum.splits)

text \<open>A loop that rewrites the entry of every band from its old value and its inputs.\<close>

lemma update_loop:
  assumes body: "\<And>t hc. body t hc =
      bind (getitem hc t) (\<lambda>h. bind (getitem inp t) (\<lambda>b. Inr (hc(t \<mapsto> g b h))))"
    and "distinct order" and "set order \<subseteq> dom hc" and "set order \<subseteq> dom inp"
  shows "for_each body order hc =
    Inr (\<lambda>t. if t \<in> set order then Some (g (the (inp t)) (the (hc t))) else hc t)"
  using assms(2-)
proof (induction order arbitrary: hc)
  case Nil
  then show ?case by simp
next
  case (Cons t ts)
  from Cons.prems obtain h b where h: "hc t = Some h" and b: "inp t = Some b"
    by auto
  let ?hc = "hc(t \<mapsto> g b h)"
  have step: "body t hc = Inr ?hc"
    by (simp add: body h b)
  have "for_each body ts ?hc =
    Inr (\<lambda>u. if u \<in> set ts then Some (g (the (inp u)) (the (?hc u))) else ?hc u)"
    using Cons.prems by (intro Cons.IH) auto
  moreover have "(\<lambda>u. if u \<in> set ts then Some (g (the (inp u)) (the (?hc u))) else ?hc u) =
    (\<lambda>u. if u \<in> set (t # ts) then Some (g (the (inp u)) (the (hc u))) else hc u)"
    using Cons.prems h b by (auto simp: fun_eq_iff)
  ultimately show ?case
    by (simp add: step)
qed

lemma attrition_eq:
  assumes "distinct order" and "set order \<subseteq> dom hc" and "set order \<subseteq> dom inp"
  shows "attrition ar inp order hc =
    Inr (\<lambda>t. if t \<in> set order
              then Some (fmul ar (the (hc t)) (fsub ar 1 (attr (the (inp t))))) else hc t)"
  unfolding attrition_def
  by (rule update_loop [where g = "\<lambda>b h. fmul ar h (fsub ar 1 (attr b))"])
     (simp_all add: attrition_body_def assms)

lemma add_hires_eq:
  assumes "distinct order" and "set order \<subseteq> dom hc" and "set order \<subseteq> dom inp"
  shows "add_hires ar inp order hc =
    Inr (\<lambda>t. if t \<in> set order
              then Some (fadd ar (the (hc t)) (hires (the (inp t)))) else hc t)"
  unfolding add_hires_def
  by (rule update_loop [where g = "\<lambda>b h. fadd ar h (hires b)"])
     (simp_all add: hires_body_def assms)

section \<open>Rounding in either arithmetic; the loops of the simulation\<close>

lemma rnd_zero [simp]: "rnd ar 0 = 0"
  by (cases ar) simp_all

lemma rnd_nonneg: "0 \<le> x \<Longrightarrow> 0 \<le> rnd ar x"
  by (cases ar) (simp_all add: fl_nonneg)

lemma rnd_mono_nonneg: "0 \<le> x \<Longrightarrow> x \<le> y \<Longrightarrow> rnd ar x \<le> rnd ar y"
  by (cases ar) (simp_all add: fl_mono_nonneg)

lemma rnd_idem_nonneg: "0 \<le> x \<Longrightarrow> rnd ar (rnd ar x) = rnd ar x"
  by (cases ar) (simp_all add: fl_idem_nonneg)

lemma fold_upd_const:
  "fold (\<lambda>t m. m(t \<mapsto> c)) ts m0 = (\<lambda>t. if t \<in> set ts then Some c else m0 t)"
  by (induction ts arbitrary: m0) (auto simp: fun_eq_iff)

lemma init_moves_eq: "init_moves order = (\<lambda>t. if t \<in> set order then Some 0 else None)"
  by (simp add: init_moves_def fold_upd_const)

lemma successor_Some: "inp t = Some b \<Longrightarrow> successor inp t = in_promo_to b"
  by (simp add: successor_def)

lemma moves_loop:
  assumes "set ts \<subseteq> dom hc" and "set ts \<subseteq> dom inp"
  shows "for_each (moves_body ar inp hc) ts m =
    Inr (\<lambda>t. if t \<in> set ts \<and> successor inp t \<noteq> None then Some (amount ar inp hc t) else m t)"
  using assms
proof (induction ts arbitrary: m)
  case Nil
  then show ?case by simp
next
  case (Cons t ts)
  from Cons.prems obtain h b where h: "hc t = Some h" and b: "inp t = Some b"
    by auto
  show ?case
  proof (cases "in_promo_to b")
    case None
    then have "moves_body ar inp hc t m = Inr m"
      by (simp add: moves_body_def b)
    moreover have "for_each (moves_body ar inp hc) ts m =
      Inr (\<lambda>u. if u \<in> set ts \<and> successor inp u \<noteq> None then Some (amount ar inp hc u) else m u)"
      using Cons.prems by (intro Cons.IH) auto
    ultimately show ?thesis
      using None b by (auto simp: fun_eq_iff successor_def)
  next
    case (Some s)
    let ?m = "m(t \<mapsto> fmul ar h (promo b))"
    have "moves_body ar inp hc t m = Inr ?m"
      by (simp add: moves_body_def b h Some)
    moreover have "for_each (moves_body ar inp hc) ts ?m =
      Inr (\<lambda>u. if u \<in> set ts \<and> successor inp u \<noteq> None then Some (amount ar inp hc u) else ?m u)"
      using Cons.prems by (intro Cons.IH) auto
    ultimately show ?thesis
      using Some b h by (auto simp: fun_eq_iff successor_def amount_def)
  qed
qed

lemma amount_no_successor: "successor inp t = None \<Longrightarrow> amount ar inp hc t = 0"
  by (simp add: amount_def successor_def split: option.splits)

lemma compute_moves_eq:
  assumes "set order \<subseteq> dom hc" and "set order \<subseteq> dom inp"
  shows "compute_moves ar inp order hc =
    Inr (\<lambda>t. if t \<in> set order then Some (amount ar inp hc t) else None)"
  unfolding compute_moves_def moves_loop [OF assms] init_moves_eq
  by (auto simp: fun_eq_iff amount_no_successor)

lemma well_formed_distinct: "well_formed inp order \<Longrightarrow> distinct order"
  by (simp add: well_formed_def)

lemma well_formed_dom: "well_formed inp order \<Longrightarrow> set order \<subseteq> dom inp"
  by (auto simp: well_formed_def list_all_iff split: option.splits)

lemma well_formed_band:
  assumes "well_formed inp order" and "t \<in> set order"
  obtains b where "inp t = Some b"
    and "\<forall>s. in_promo_to b = Some s \<longrightarrow> s \<in> set order"
proof -
  from assms have P: "case inp t of None \<Rightarrow> False
      | Some b \<Rightarrow> (case in_promo_to b of None \<Rightarrow> True | Some s \<Rightarrow> s \<in> set order)"
    by (simp add: well_formed_def list_all_iff)
  then obtain b where b: "inp t = Some b" by (cases "inp t") simp_all
  with P have "case in_promo_to b of None \<Rightarrow> True | Some s \<Rightarrow> s \<in> set order" by simp
  then have "\<forall>s. in_promo_to b = Some s \<longrightarrow> s \<in> set order"
    by (cases "in_promo_to b") simp_all
  with b show ?thesis by (rule that)
qed

lemma well_formed_successor:
  assumes "well_formed inp order" and "t \<in> set order" and "successor inp t = Some s"
  shows "s \<in> set order"
proof -
  obtain b where b: "inp t = Some b"
    and s: "\<forall>s. in_promo_to b = Some s \<longrightarrow> s \<in> set order"
    using well_formed_band [OF assms(1,2)] by blast
  from b assms(3) have "in_promo_to b = Some s" by (simp add: successor_def)
  with s show ?thesis by simp
qed

lemma spec_valid_band_well_formed:
  assumes "spec_valid_band inp order t"
  shows "case inp t of None \<Rightarrow> False
      | Some b \<Rightarrow> (case in_promo_to b of None \<Rightarrow> True | Some s \<Rightarrow> s \<in> set order)"
proof (cases "inp t")
  case None
  with assms show ?thesis by (simp add: spec_valid_band_def)
next
  case (Some b)
  with assms show ?thesis
    by (cases "in_promo_to b") (simp_all add: spec_valid_band_def)
qed

lemma spec_valid_well_formed:
  assumes "spec_valid_configuration inp order"
  shows "well_formed inp order"
proof -
  from assms have "distinct order" and "\<forall>t\<in>set order. spec_valid_band inp order t"
    by (simp_all add: spec_valid_configuration_def list_all_iff)
  then show ?thesis
    unfolding well_formed_def list_all_iff using spec_valid_band_well_formed by blast
qed

lemma apply_body_None:
  "inp t = Some b \<Longrightarrow> in_promo_to b = None \<Longrightarrow>
   apply_body ar inp moves dt t (hc, prs) = Inr (hc, prs)"
  by (simp add: apply_body_def)

lemma apply_body_Some:
  "inp t = Some b \<Longrightarrow> in_promo_to b = Some s \<Longrightarrow> moves t = Some a \<Longrightarrow> hc t = Some h \<Longrightarrow>
   (hc(t \<mapsto> fsub ar h a)) s = Some h' \<Longrightarrow>
   apply_body ar inp moves dt t (hc, prs) =
     Inr ((hc(t \<mapsto> fsub ar h a))(s \<mapsto> fadd ar h' a),
          prs @ [\<lparr>Quarter_End = strftime_Y_m dt, From_Band = t, To_Band = s,
                   Promoted_HC = py_round1 ar a\<rparr>])"
  by (simp add: apply_body_def Let_def)

lemma promotion_events_Cons:
  "promotion_events ar inp hc0 dt (t # ts) =
     (case successor inp t of
        None \<Rightarrow> []
      | Some s \<Rightarrow> [\<lparr>Quarter_End = strftime_Y_m dt, From_Band = t, To_Band = s,
                     Promoted_HC = py_round1 ar (amount ar inp hc0 t)\<rparr>]) @
     promotion_events ar inp hc0 dt ts"
  by (simp add: promotion_events_def)

lemma promotion_events_Nil [simp]: "promotion_events ar inp hc0 dt [] = []"
  by (simp add: promotion_events_def)

lemma apply_moves_events:
  assumes "set ts \<subseteq> dom inp"
    and "\<forall>t\<in>set ts. moves t = Some (amount ar inp hc0 t)"
    and "set ts \<subseteq> dom hc"
    and "\<forall>t\<in>set ts. \<forall>s. successor inp t = Some s \<longrightarrow> s \<in> dom hc"
  shows "\<exists>hc'. apply_moves ar inp moves dt ts (hc, prs) =
            Inr (hc', prs @ promotion_events ar inp hc0 dt ts) \<and> dom hc' = dom hc"
  using assms
proof (induction ts arbitrary: hc prs)
  case Nil
  then show ?case by (simp add: apply_moves_def)
next
  case (Cons t ts)
  from Cons.prems obtain h b where h: "hc t = Some h" and b: "inp t = Some b"
    by auto
  have mv: "moves t = Some (amount ar inp hc0 t)" using Cons.prems by simp
  show ?case
  proof (cases "in_promo_to b")
    case None
    then have step: "apply_body ar inp moves dt t (hc, prs) = Inr (hc, prs)"
      using b by (rule apply_body_None [rotated])
    have "\<exists>hc'. apply_moves ar inp moves dt ts (hc, prs) =
            Inr (hc', prs @ promotion_events ar inp hc0 dt ts) \<and> dom hc' = dom hc"
      using Cons.prems by (intro Cons.IH) auto
    then show ?thesis
      using step None b by (simp add: apply_moves_def promotion_events_Cons successor_def)
  next
    case (Some s)
    let ?a = "amount ar inp hc0 t"
    let ?hc1 = "hc(t \<mapsto> fsub ar h ?a)"
    have "s \<in> dom hc" using Cons.prems(4) b Some by (simp add: successor_def)
    then obtain h' where h': "?hc1 s = Some h'" by (cases "s = t") auto
    let ?hc2 = "?hc1(s \<mapsto> fadd ar h' ?a)"
    let ?e = "\<lparr>Quarter_End = strftime_Y_m dt, From_Band = t, To_Band = s,
               Promoted_HC = py_round1 ar ?a\<rparr>"
    have step: "apply_body ar inp moves dt t (hc, prs) = Inr (?hc2, prs @ [?e])"
      using b Some mv h h' by (rule apply_body_Some)
    have d: "dom ?hc2 = dom hc" using h \<open>s \<in> dom hc\<close> by auto
    have p1: "set ts \<subseteq> dom inp" and p2: "\<forall>t\<in>set ts. moves t = Some (amount ar inp hc0 t)"
      using Cons.prems by simp_all
    have p3: "set ts \<subseteq> dom ?hc2" using Cons.prems(3) unfolding d by simp
    have p4: "\<forall>t\<in>set ts. \<forall>s. successor inp t = Some s \<longrightarrow> s \<in> dom ?hc2"
      using Cons.prems(4) unfolding d by simp
    from Cons.IH [OF p1 p2 p3 p4, of "prs @ [?e]"]
    obtain hc' where r: "apply_moves ar inp moves dt ts (?hc2, prs @ [?e]) =
            Inr (hc', (prs @ [?e]) @ promotion_events ar inp hc0 dt ts)"
      and d': "dom hc' = dom ?hc2"
      by blast
    have "apply_moves ar inp moves dt (t # ts) (hc, prs) =
        Inr (hc', prs @ promotion_events ar inp hc0 dt (t # ts))"
      using r step Some b by (simp add: apply_moves_def promotion_events_Cons successor_def)
    moreover have "dom hc' = dom hc" using d' d by (rule trans)
    ultimately show ?thesis by blast
  qed
qed

lemma promotions_events:
  assumes "well_formed inp order" and "set order \<subseteq> dom hc"
  shows "\<exists>hc'. promotions ar inp order dt (hc, prs) =
            Inr (hc', prs @ promotion_events ar inp hc dt order) \<and> dom hc' = dom hc"
proof -
  have 1: "compute_moves ar inp order hc =
      Inr (\<lambda>t. if t \<in> set order then Some (amount ar inp hc t) else None)"
    using assms(2) well_formed_dom [OF assms(1)] by (rule compute_moves_eq)
  have "\<exists>hc'. apply_moves ar inp
          (\<lambda>t. if t \<in> set order then Some (amount ar inp hc t) else None) dt order (hc, prs) =
            Inr (hc', prs @ promotion_events ar inp hc dt order) \<and> dom hc' = dom hc"
  proof (intro apply_moves_events)
    show "set order \<subseteq> dom inp" using assms(1) by (rule well_formed_dom)
    show "\<forall>t\<in>set order. (if t \<in> set order then Some (amount ar inp hc t) else None) =
        Some (amount ar inp hc t)" by simp
    show "set order \<subseteq> dom hc" by (rule assms(2))
    show "\<forall>t\<in>set order. \<forall>s. successor inp t = Some s \<longrightarrow> s \<in> dom hc"
    proof (intro ballI allI impI)
      fix t s
      assume "t \<in> set order" and "successor inp t = Some s"
      with assms(1) have "s \<in> set order" by (rule well_formed_successor)
      with assms(2) show "s \<in> dom hc" by (rule subsetD)
    qed
  qed
  then show ?thesis by (simp add: promotions_def 1)
qed

lemma row_loop_dom:
  "for_each (row_body hc) ts r0 = Inr r \<Longrightarrow> set ts \<subseteq> dom hc"
proof (induction ts arbitrary: r0)
  case Nil
  then show ?case by simp
next
  case (Cons t ts)
  from Cons.prems obtain r1 where 1: "row_body hc t r0 = Inr r1"
    and 2: "for_each (row_body hc) ts r1 = Inr r"
    by (auto simp: bind_eq_Inr)
  from 1 have "t \<in> dom hc"
    by (auto simp: row_body_def bind_eq_Inr getitem_eq_Inr)
  with Cons.IH [OF 2] show ?case by simp
qed

lemma row_loop:
  "set ts \<subseteq> dom hc \<Longrightarrow>
   for_each (row_body hc) ts r0 =
     Inr (\<lambda>t. if t \<in> set ts then Some (max 0 (the (hc t))) else r0 t)"
proof (induction ts arbitrary: r0)
  case Nil
  then show ?case by simp
next
  case (Cons t ts)
  from Cons.prems obtain h where h: "hc t = Some h" by auto
  have "row_body hc t r0 = Inr (r0(t \<mapsto> max 0 h))"
    by (simp add: row_body_def h)
  moreover have "for_each (row_body hc) ts (r0(t \<mapsto> max 0 h)) =
     Inr (\<lambda>u. if u \<in> set ts then Some (max 0 (the (hc u))) else (r0(t \<mapsto> max 0 h)) u)"
    using Cons.prems by (intro Cons.IH) simp
  ultimately show ?case using h by (auto simp: fun_eq_iff)
qed

lemma getitems_eq: "set ts \<subseteq> dom r \<Longrightarrow> getitems r ts = Inr (map (\<lambda>t. the (r t)) ts)"
  by (induction ts) auto

lemma record_row_eq:
  assumes "set order \<subseteq> dom hc"
  shows "record_row ar order dt hc =
    Inr \<lparr>Month = dt,
         cols = (\<lambda>t. if t \<in> set order then Some (max 0 (the (hc t))) else None),
         Total = py_sum ar (map (\<lambda>t. max 0 (the (hc t))) order)\<rparr>"
proof -
  let ?r = "\<lambda>t. if t \<in> set order then Some (max 0 (the (hc t))) else None"
  have 1: "for_each (row_body hc) order Map.empty = Inr ?r"
    using row_loop [OF assms, of Map.empty] by simp
  have "set order \<subseteq> dom ?r" by (auto split: if_splits)
  then have "getitems ?r order = Inr (map (\<lambda>t. the (?r t)) order)" by (rule getitems_eq)
  moreover have "map (\<lambda>t. the (?r t)) order = map (\<lambda>t. max 0 (the (hc t))) order" by simp
  ultimately show ?thesis by (simp add: record_row_def 1)
qed

lemma record_row_dom: "record_row ar order dt hc = Inr r \<Longrightarrow> set order \<subseteq> dom hc"
  by (auto simp: record_row_def bind_eq_Inr dest: row_loop_dom)

lemma foldl_fadd_nonneg:
  "0 \<le> a \<Longrightarrow> \<forall>x\<in>set xs. 0 \<le> x \<Longrightarrow> 0 \<le> foldl (fadd ar) a xs"
proof (induction xs arbitrary: a)
  case Nil
  then show ?case by simp
next
  case (Cons x xs)
  then have "0 \<le> fadd ar a x" by (simp add: fadd_def rnd_nonneg)
  with Cons show ?case by simp
qed

lemma py_sum_nonneg: "\<forall>x\<in>set xs. 0 \<le> x \<Longrightarrow> 0 \<le> py_sum ar xs"
  unfolding py_sum_def by (rule foldl_fadd_nonneg) simp_all

lemma month_body_row:
  assumes "month_body ar inp order dt (hc, rows, prs) = Inr (hc', rows', prs')"
  obtains r where "rows' = rows @ [r]" and "record_row ar order dt hc' = Inr r"
  using assms
  by (auto simp: month_body_def bind_eq_Inr split: if_splits prod.splits)

lemma months_rows:
  "for_each (month_body ar inp order) ds (hc, rows, prs) = Inr (hc', rows', prs') \<Longrightarrow>
   \<exists>new. rows' = rows @ new \<and> length new = length ds"
proof (induction ds arbitrary: hc rows prs)
  case Nil
  then show ?case by simp
next
  case (Cons d ds)
  from Cons.prems obtain hc1 rows1 prs1
    where 1: "month_body ar inp order d (hc, rows, prs) = Inr (hc1, rows1, prs1)"
      and 2: "for_each (month_body ar inp order) ds (hc1, rows1, prs1) = Inr (hc', rows', prs')"
    by (auto simp: bind_eq_Inr)
  from 1 obtain r where r: "rows1 = rows @ [r]" by (rule month_body_row)
  from Cons.IH [OF 2] obtain new where "rows' = rows1 @ new" and "length new = length ds"
    by blast
  with r have "rows' = rows @ (r # new) \<and> length (r # new) = length (d # ds)" by simp
  then show ?case by blast
qed

lemma run_months_snoc:
  "run_months ar inp order (ds @ [d]) =
     bind (run_months ar inp order ds) (month_body ar inp order d)"
  by (cases "init_hc inp order") (simp_all add: run_months_def for_each_append bind_def split: sum.splits)

lemma run_months_append:
  "run_months ar inp order (ds @ ds') =
     bind (run_months ar inp order ds) (for_each (month_body ar inp order) ds')"
  by (cases "init_hc inp order") (simp_all add: run_months_def for_each_append)

lemma run_months_length:
  assumes "run_months ar inp order ds = Inr (hc, rows, prs)"
  shows "length rows = length ds"
proof -
  from assms obtain hc0 where
    "for_each (month_body ar inp order) ds (hc0, [], []) = Inr (hc, rows, prs)"
    by (auto simp: run_months_def bind_eq_Inr)
  from months_rows [OF this] show ?thesis by auto
qed

text \<open>The run through month \<open>k\<close>: its last row is row \<open>k\<close> of the whole run.\<close>

lemma run_months_month:
  assumes "run_months ar inp order dates = Inr (hc, rows, prs)" and "k < length dates"
  obtains hc0 rows0 prs0 hc1 prs1
  where "run_months ar inp order (take k dates) = Inr (hc0, rows0, prs0)"
    and "month_body ar inp order (dates ! k) (hc0, rows0, prs0) = Inr (hc1, rows0 @ [rows ! k], prs1)"
    and "run_months ar inp order (take (Suc k) dates) = Inr (hc1, rows0 @ [rows ! k], prs1)"
    and "length rows0 = k"
proof -
  let ?run = "run_months ar inp order"
  have split: "dates = take (Suc k) dates @ drop (Suc k) dates" by simp
  have "?run dates = bind (?run (take (Suc k) dates))
      (for_each (month_body ar inp order) (drop (Suc k) dates))"
    using run_months_append [of ar inp order "take (Suc k) dates" "drop (Suc k) dates"] by simp
  with assms(1) obtain hc1 rows1 prs1
    where 1: "?run (take (Suc k) dates) = Inr (hc1, rows1, prs1)"
      and 2: "for_each (month_body ar inp order) (drop (Suc k) dates) (hc1, rows1, prs1) =
          Inr (hc, rows, prs)"
    by (auto simp: bind_eq_Inr)
  have tk: "take (Suc k) dates = take k dates @ [dates ! k]"
    using assms(2) by (rule take_Suc_conv_app_nth)
  from 1 have "bind (?run (take k dates)) (month_body ar inp order (dates ! k)) =
      Inr (hc1, rows1, prs1)"
    by (simp add: tk run_months_snoc)
  then obtain hc0 rows0 prs0
    where 3: "?run (take k dates) = Inr (hc0, rows0, prs0)"
      and 4: "month_body ar inp order (dates ! k) (hc0, rows0, prs0) = Inr (hc1, rows1, prs1)"
    by (auto simp: bind_eq_Inr)
  from 4 obtain r where r: "rows1 = rows0 @ [r]" by (rule month_body_row)
  have l0: "length rows0 = k" using run_months_length [OF 3] assms(2) by simp
  from months_rows [OF 2] obtain new where "rows = rows1 @ new" by blast
  with r l0 have "rows ! k = r" by (simp add: nth_append)
  with r 1 3 4 l0 show ?thesis by (intro that) simp_all
qed

lemma inputs_fold_notin:
  "t \<notin> team ` set teams \<Longrightarrow>
   fold (\<lambda>b m. m(team b \<mapsto> band_input_of ar b (ui (team b)))) teams m t = m t"
  by (induction teams arbitrary: m) auto

lemma inputs_fold_Some:
  "fold (\<lambda>b m. m(team b \<mapsto> band_input_of ar b (ui (team b)))) teams m t = Some bi \<Longrightarrow>
   m t = Some bi \<or> (\<exists>b\<in>set teams. team b = t \<and> bi = band_input_of ar b (ui t))"
proof (induction teams arbitrary: m)
  case Nil
  then show ?case by simp
next
  case (Cons x xs)
  from Cons.IH [of "m(team x \<mapsto> band_input_of ar x (ui (team x)))"] Cons.prems
  show ?case by (auto split: if_splits)
qed

lemma inputs_of_Some:
  "inputs_of ar teams ui t = Some bi \<Longrightarrow>
   \<exists>b\<in>set teams. team b = t \<and> bi = band_input_of ar b (ui t)"
  unfolding inputs_of_def using inputs_fold_Some [of ar ui teams Map.empty t bi] by simp

lemma inputs_fold_dom:
  "dom (fold (\<lambda>b m. m(team b \<mapsto> band_input_of ar b (ui (team b)))) teams m) =
   team ` set teams \<union> dom m"
  by (induction teams arbitrary: m) auto

lemma inputs_of_dom: "dom (inputs_of ar teams ui) = set (TEAM_ORDER_of teams)"
  by (simp add: inputs_of_def inputs_fold_dom TEAM_ORDER_of_def)

lemma inputs_of_distinct:
  assumes "distinct (TEAM_ORDER_of teams)" and "b \<in> set teams"
  shows "inputs_of ar teams ui (team b) = Some (band_input_of ar b (ui (team b)))"
proof -
  have "team b \<in> dom (inputs_of ar teams ui)"
    using assms(2) by (simp add: inputs_of_dom TEAM_ORDER_of_def)
  then obtain bi where bi: "inputs_of ar teams ui (team b) = Some bi" by auto
  then obtain b' where b': "b' \<in> set teams" "team b' = team b"
    "bi = band_input_of ar b' (ui (team b))"
    using inputs_of_Some by blast
  from assms b'(1,2) have "b' = b"
    by (simp add: TEAM_ORDER_of_def distinct_map inj_on_def)
  with bi b'(3) show ?thesis by simp
qed

lemma band_input_of_simps [simp]:
  "starting (band_input_of ar b w) = float_of_int ar (w_start w)"
  "hires (band_input_of ar b w) = float_of_int ar (w_hires w)"
  "attr (band_input_of ar b w) = fdiv ar (w_attr w) 100"
  "promo (band_input_of ar b w) = fdiv ar (if promo_to b = None then 0 else w_promo w) 100"
  "in_promo_to (band_input_of ar b w) = promo_to b"
  "in_segment (band_input_of ar b w) = segment b"
  by (simp_all add: band_input_of_def Let_def)

lemma init_loop:
  "set ts \<subseteq> dom inp \<Longrightarrow>
   for_each (init_body inp) ts hc =
     Inr (\<lambda>t. if t \<in> set ts then Some (starting (the (inp t))) else hc t)"
proof (induction ts arbitrary: hc)
  case Nil
  then show ?case by simp
next
  case (Cons t ts)
  from Cons.prems obtain b where b: "inp t = Some b" by auto
  have "init_body inp t hc = Inr (hc(t \<mapsto> starting b))"
    by (simp add: init_body_def b)
  moreover have "for_each (init_body inp) ts (hc(t \<mapsto> starting b)) =
     Inr (\<lambda>u. if u \<in> set ts then Some (starting (the (inp u))) else (hc(t \<mapsto> starting b)) u)"
    using Cons.prems by (intro Cons.IH) simp
  ultimately show ?case using b by (auto simp: fun_eq_iff)
qed

lemma init_hc_eq:
  "set order \<subseteq> dom inp \<Longrightarrow>
   init_hc inp order = Inr (\<lambda>t. if t \<in> set order then Some (starting (the (inp t))) else None)"
  unfolding init_hc_def by (rule init_loop)

lemma dom_if_Some: "dom (\<lambda>t. if t \<in> A then Some (f t) else m t) = A \<union> dom m"
  by (auto split: if_splits)

text \<open>One month on a well-formed configuration: no exception, and each step as a value.\<close>

lemma month_steps:
  assumes wf: "well_formed inp order" and d: "set order \<subseteq> dom hc"
  obtains hc1 hc2 hc3 prs' r
  where "attrition ar inp order hc = Inr hc1"
    and "\<forall>t\<in>set order. hc1 t = Some (fmul ar (the (hc t)) (fsub ar 1 (attr (the (inp t)))))"
    and "add_hires ar inp order hc1 = Inr hc2"
    and "\<forall>t\<in>set order. hc2 t = Some (fadd ar (the (hc1 t)) (hires (the (inp t))))"
    and "is_quarter_end dt \<longrightarrow> promotions ar inp order dt (hc2, prs) = Inr (hc3, prs') \<and>
           prs' = prs @ promotion_events ar inp hc2 dt order"
    and "\<not> is_quarter_end dt \<longrightarrow> hc3 = hc2 \<and> prs' = prs"
    and "record_row ar order dt hc3 = Inr r"
    and "\<forall>t\<in>set order. cols r t = Some (max 0 (the (hc3 t)))"
    and "month_body ar inp order dt (hc, rows, prs) = Inr (hc3, rows @ [r], prs')"
    and "dom hc1 = dom hc" and "dom hc2 = dom hc" and "dom hc3 = dom hc"
proof -
  note dist = well_formed_distinct [OF wf] and di = well_formed_dom [OF wf]
  define hc1 where "hc1 = (\<lambda>t. if t \<in> set order
      then Some (fmul ar (the (hc t)) (fsub ar 1 (attr (the (inp t))))) else hc t)"
  have a1: "attrition ar inp order hc = Inr hc1"
    unfolding hc1_def using dist d di by (rule attrition_eq)
  have d1: "dom hc1 = dom hc" unfolding hc1_def dom_if_Some using d by blast
  define hc2 where "hc2 = (\<lambda>t. if t \<in> set order
      then Some (fadd ar (the (hc1 t)) (hires (the (inp t)))) else hc1 t)"
  have a2: "add_hires ar inp order hc1 = Inr hc2"
    unfolding hc2_def using dist d di by (intro add_hires_eq) (simp_all add: d1)
  have d2: "dom hc2 = dom hc" unfolding hc2_def dom_if_Some d1 using d by blast
  have d2': "set order \<subseteq> dom hc2" using d d2 by simp
  obtain hc3 prs' where a3: "is_quarter_end dt \<longrightarrow>
        promotions ar inp order dt (hc2, prs) = Inr (hc3, prs') \<and>
        prs' = prs @ promotion_events ar inp hc2 dt order"
    and a3': "\<not> is_quarter_end dt \<longrightarrow> hc3 = hc2 \<and> prs' = prs"
    and d3: "dom hc3 = dom hc"
  proof (cases "is_quarter_end dt")
    case True
    from promotions_events [OF wf d2', of ar dt prs] obtain hc3
      where "promotions ar inp order dt (hc2, prs) =
          Inr (hc3, prs @ promotion_events ar inp hc2 dt order)" and "dom hc3 = dom hc2"
      by blast
    with True d2 show ?thesis by (intro that [of hc3 "prs @ promotion_events ar inp hc2 dt order"]) simp_all
  next
    case False
    with d2 show ?thesis by (intro that [of hc2 prs]) simp_all
  qed
  have d3': "set order \<subseteq> dom hc3" using d d3 by simp
  define r where "r = \<lparr>Month = dt,
         cols = (\<lambda>t. if t \<in> set order then Some (max 0 (the (hc3 t))) else None),
         Total = py_sum ar (map (\<lambda>t. max 0 (the (hc3 t))) order)\<rparr>"
  have a4: "record_row ar order dt hc3 = Inr r"
    unfolding r_def using d3' by (rule record_row_eq)
  have a5: "month_body ar inp order dt (hc, rows, prs) = Inr (hc3, rows @ [r], prs')"
    using a1 a2 a3 a3' a4 by (cases "is_quarter_end dt") (simp_all add: month_body_def)
  show ?thesis
  proof (rule that [OF a1 _ a2 _ a3 a3' a4 _ a5 d1 d2 d3])
    show "\<forall>t\<in>set order. hc1 t = Some (fmul ar (the (hc t)) (fsub ar 1 (attr (the (inp t)))))"
      by (simp add: hc1_def)
    show "\<forall>t\<in>set order. hc2 t = Some (fadd ar (the (hc1 t)) (hires (the (inp t))))"
      by (simp add: hc2_def)
    show "\<forall>t\<in>set order. cols r t = Some (max 0 (the (hc3 t)))"
      by (simp add: r_def)
  qed
qed

lemma run_months_well_formed:
  assumes wf: "well_formed inp order"
  shows "\<exists>hc rows prs. run_months ar inp order ds = Inr (hc, rows, prs) \<and> dom hc = set order"
proof (induction ds rule: rev_induct)
  case Nil
  have "init_hc inp order =
      Inr (\<lambda>t. if t \<in> set order then Some (starting (the (inp t))) else None)"
    using well_formed_dom [OF wf] by (rule init_hc_eq)
  then show ?case by (simp add: run_months_def dom_if_Some)
next
  case (snoc d ds)
  then obtain hc rows prs where r: "run_months ar inp order ds = Inr (hc, rows, prs)"
    and d: "dom hc = set order" by blast
  from d have "set order \<subseteq> dom hc" by simp
  from month_steps [OF wf this, of ar d prs rows]
  obtain hc3 prs' r' where "month_body ar inp order d (hc, rows, prs) = Inr (hc3, rows @ [r'], prs')"
    and "dom hc3 = dom hc" by metis
  with r d show ?case by (simp add: run_months_snoc)
qed

section \<open>The example of the specification, through March 2025\<close>

text \<open>
  Claim C8. On the chain A to B of the specification (A: start 100, no hires, 10 %
  attrition, 50 % promotion; B: start 0, no hires, no attrition, no successor), run over
  January, February and March 2025 in binary64: after February A is 81 and B is 0;
  March's attrition takes A to the float 72.9 and the hires change nothing; the move
  computed for A is the float 36.45; the tables show A = 36.45 and B = 36.45 for March,
  and the promotion table has exactly one row, for 2025-03, from A to B, with the amount
  36.5.
\<close>

theorem example_march_2025:
  "at_bands [''A'', ''B'']
     (final_headcount (run_months Binary64 (inputs_AB Binary64) (TEAM_ORDER_of chain_AB)
        (take 2 months_index))) = Inr [Some 81, Some 0] \<and>
   at_bands [''A'', ''B'']
     (attrition Binary64 (inputs_AB Binary64) (TEAM_ORDER_of chain_AB)
        [''A'' \<mapsto> 81, ''B'' \<mapsto> 0]) = Inr [Some (literal Binary64 (729 / 10)), Some 0] \<and>
   at_bands [''A'', ''B'']
     (add_hires Binary64 (inputs_AB Binary64) (TEAM_ORDER_of chain_AB)
        [''A'' \<mapsto> literal Binary64 (729 / 10), ''B'' \<mapsto> 0]) =
     Inr [Some (literal Binary64 (729 / 10)), Some 0] \<and>
   at_bands [''A'', ''B'']
     (compute_moves Binary64 (inputs_AB Binary64) (TEAM_ORDER_of chain_AB)
        [''A'' \<mapsto> literal Binary64 (729 / 10), ''B'' \<mapsto> 0]) =
     Inr [Some (literal Binary64 (3645 / 100)), Some 0] \<and>
   tables [''A'', ''B'']
     (simulate_on Binary64 (inputs_AB Binary64) (TEAM_ORDER_of chain_AB) jan_to_mar_2025) =
     Inr ([(\<lparr>year = 2025, month = 1\<rparr>, [Some 90, Some 0], 90),
           (\<lparr>year = 2025, month = 2\<rparr>, [Some 81, Some 0], 81),
           (\<lparr>year = 2025, month = 3\<rparr>,
            [Some (literal Binary64 (3645 / 100)), Some (literal Binary64 (3645 / 100))],
            literal Binary64 (729 / 10))],
          [\<lparr>Quarter_End = ''2025-03'', From_Band = ''A'', To_Band = ''B'',
            Promoted_HC = literal Binary64 (365 / 10)\<rparr>])"
  by code_simp

section \<open>What is reported, and the band with no successor\<close>

lemma simulate_on_run:
  "simulate_on ar inp order dates = Inr (rows, prs) \<longleftrightarrow>
   (\<exists>hc. run_months ar inp order dates = Inr (hc, rows, prs))"
  by (auto simp: simulate_on_def bind_eq_Inr)

lemma record_row_cases:
  assumes "record_row ar order dt hc = Inr r"
  shows "\<forall>t\<in>set order. \<exists>h. hc t = Some h \<and> cols r t = Some (max 0 h)"
    and "0 \<le> Total r" and "Month r = dt"
proof -
  have d: "set order \<subseteq> dom hc" using assms by (rule record_row_dom)
  from record_row_eq [OF d, of ar dt] assms
  have r: "r = \<lparr>Month = dt,
         cols = (\<lambda>t. if t \<in> set order then Some (max 0 (the (hc t))) else None),
         Total = py_sum ar (map (\<lambda>t. max 0 (the (hc t))) order)\<rparr>" by simp
  show "\<forall>t\<in>set order. \<exists>h. hc t = Some h \<and> cols r t = Some (max 0 h)"
  proof
    fix t assume t: "t \<in> set order"
    with d obtain h where "hc t = Some h" by auto
    with t show "\<exists>h. hc t = Some h \<and> cols r t = Some (max 0 h)" by (simp add: r)
  qed
  have "0 \<le> py_sum ar (map (\<lambda>t. max 0 (the (hc t))) order)"
    by (rule py_sum_nonneg) simp
  then show "0 \<le> Total r" by (simp add: r)
  show "Month r = dt" by (simp add: r)
qed



lemma apply_body_sources:
  assumes "apply_body ar inp moves dt t (hc, prs) = Inr (hc', prs')"
  shows "\<forall>e\<in>set prs'. e \<in> set prs \<or> successor inp (From_Band e) \<noteq> None"
proof -
  from assms obtain b where b: "inp t = Some b"
    by (auto simp: apply_body_def bind_eq_Inr getitem_eq_Inr)
  show ?thesis
  proof (cases "in_promo_to b")
    case None
    with b assms show ?thesis by (simp add: apply_body_None)
  next
    case (Some s)
    with b assms show ?thesis
      by (auto simp: apply_body_def bind_eq_Inr getitem_eq_Inr Let_def successor_def)
  qed
qed

lemma apply_moves_sources:
  "apply_moves ar inp moves dt ts (hc, prs) = Inr (hc', prs') \<Longrightarrow>
   \<forall>e\<in>set prs'. e \<in> set prs \<or> successor inp (From_Band e) \<noteq> None"
proof (induction ts arbitrary: hc prs)
  case Nil
  then show ?case by (simp add: apply_moves_def)
next
  case (Cons t ts)
  from Cons.prems obtain hc1 prs1
    where 1: "apply_body ar inp moves dt t (hc, prs) = Inr (hc1, prs1)"
      and 2: "apply_moves ar inp moves dt ts (hc1, prs1) = Inr (hc', prs')"
    by (auto simp: apply_moves_def bind_eq_Inr)
  from apply_body_sources [OF 1] Cons.IH [OF 2] show ?case by blast
qed

lemma month_body_sources:
  assumes "month_body ar inp order dt (hc, rows, prs) = Inr (hc', rows', prs')"
  shows "\<forall>e\<in>set prs'. e \<in> set prs \<or> successor inp (From_Band e) \<noteq> None"
proof (cases "is_quarter_end dt")
  case True
  with assms obtain hc2 where "promotions ar inp order dt (hc2, prs) = Inr (hc', prs')"
    by (auto simp: month_body_def bind_eq_Inr split: prod.splits)
  then obtain moves where "apply_moves ar inp moves dt order (hc2, prs) = Inr (hc', prs')"
    by (auto simp: promotions_def bind_eq_Inr)
  then show ?thesis by (rule apply_moves_sources)
next
  case False
  with assms have "prs' = prs"
    by (auto simp: month_body_def bind_eq_Inr split: prod.splits)
  then show ?thesis by simp
qed

lemma months_sources:
  "for_each (month_body ar inp order) ds (hc, rows, prs) = Inr (hc', rows', prs') \<Longrightarrow>
   \<forall>e\<in>set prs'. e \<in> set prs \<or> successor inp (From_Band e) \<noteq> None"
proof (induction ds arbitrary: hc rows prs)
  case Nil
  then show ?case by simp
next
  case (Cons d ds)
  from Cons.prems obtain hc1 rows1 prs1
    where 1: "month_body ar inp order d (hc, rows, prs) = Inr (hc1, rows1, prs1)"
      and 2: "for_each (month_body ar inp order) ds (hc1, rows1, prs1) = Inr (hc', rows', prs')"
    by (auto simp: bind_eq_Inr)
  from month_body_sources [OF 1] Cons.IH [OF 2] show ?case by blast
qed

lemma simulate_on_sources:
  assumes "simulate_on ar inp order dates = Inr (rows, prs)"
  shows "\<forall>e\<in>set prs. successor inp (From_Band e) \<noteq> None"
proof -
  from assms obtain hc hc0
    where "for_each (month_body ar inp order) dates (hc0, [], []) = Inr (hc, rows, prs)"
    by (auto simp: simulate_on_run run_months_def bind_eq_Inr)
  from months_sources [OF this] show ?thesis by simp
qed

lemma moves_loop_terminal:
  "for_each (moves_body ar inp hc) ts m = Inr m' \<Longrightarrow> successor inp t = None \<Longrightarrow> m' t = m t"
proof (induction ts arbitrary: m)
  case Nil
  then show ?case by simp
next
  case (Cons u ts)
  from Cons.prems(1) obtain m1 where 1: "moves_body ar inp hc u m = Inr m1"
    and 2: "for_each (moves_body ar inp hc) ts m1 = Inr m'"
    by (auto simp: bind_eq_Inr)
  from 1 Cons.prems(2) have "m1 t = m t"
    by (auto simp: moves_body_def bind_eq_Inr getitem_eq_Inr successor_def split: option.splits)
  with Cons.IH [OF 2 Cons.prems(2)] show ?case by simp
qed

text \<open>
  Claim C7. Take a band \<open>t\<close> whose entry in \<^verbatim>\<open>inputs\<close>, as built from the widgets, has no
  successor. Its promotion rate is 0 whatever the widget holds; no row of the promotion
  table of any run has \<open>t\<close> as its source band; the amount computed for it at a quarter end
  is 0; and its turn in the loop that applies the moves changes nothing, so no headcount
  leaves it.
\<close>

theorem terminal_band_never_promotes:
  assumes "simulate_on ar (inputs_of ar teams ui) order dates = Inr (rows, prs)"
    and "inputs_of ar teams ui t = Some bi" and "in_promo_to bi = None"
  shows "promo bi = 0 \<and>
         (\<forall>e\<in>set prs. From_Band e \<noteq> t) \<and>
         (\<forall>hc moves. t \<in> set order \<longrightarrow>
            compute_moves ar (inputs_of ar teams ui) order hc = Inr moves \<longrightarrow> moves t = Some 0) \<and>
         (\<forall>moves dt st. apply_body ar (inputs_of ar teams ui) moves dt t st = Inr st)"
proof -
  let ?inp = "inputs_of ar teams ui"
  have succ: "successor ?inp t = None" using assms(2,3) by (simp add: successor_def)
  from inputs_of_Some [OF assms(2)] obtain b
    where b: "bi = band_input_of ar b (ui t)" by blast
  with assms(3) have "promo_to b = None" by simp
  then have 1: "promo bi = 0" by (simp add: b fdiv_def)
  have 2: "\<forall>e\<in>set prs. From_Band e \<noteq> t"
    using simulate_on_sources [OF assms(1)] succ by auto
  have 3: "\<forall>hc moves. t \<in> set order \<longrightarrow> compute_moves ar ?inp order hc = Inr moves \<longrightarrow>
      moves t = Some 0"
  proof (intro allI impI)
    fix hc moves
    assume t: "t \<in> set order" and "compute_moves ar ?inp order hc = Inr moves"
    then have "for_each (moves_body ar ?inp hc) order (init_moves order) = Inr moves"
      by (simp add: compute_moves_def)
    from moves_loop_terminal [OF this succ] t show "moves t = Some 0"
      by (simp add: init_moves_eq)
  qed
  have 4: "\<forall>moves dt st. apply_body ar ?inp moves dt t st = Inr st"
    using assms(2,3) by (auto simp: apply_body_None)
  from 1 2 3 4 show ?thesis by blast
qed

theorem terminal_band_never_promotes_witness:
  "simulate_on Exact (inputs_of Exact chain_AB widgets_AB) [''A'', ''B''] jan_to_mar_2025 =
     Inr (fst (projr (simulate_on Exact (inputs_of Exact chain_AB widgets_AB) [''A'', ''B'']
                        jan_to_mar_2025)),
          snd (projr (simulate_on Exact (inputs_of Exact chain_AB widgets_AB) [''A'', ''B'']
                        jan_to_mar_2025))) \<and>
   inputs_of Exact chain_AB widgets_AB ''B'' =
     Some (the (inputs_of Exact chain_AB widgets_AB ''B'')) \<and>
   in_promo_to (the (inputs_of Exact chain_AB widgets_AB ''B'')) = None \<and>
   promo (the (inputs_of Exact chain_AB widgets_AB ''B'')) = 0 \<and>
   apply_body Exact (inputs_of Exact chain_AB widgets_AB) Map.empty \<lparr>year = 2025, month = 3\<rparr>
     ''B'' (Map.empty, []) = Inr (Map.empty, [])"
proof -
  let ?inp = "inputs_of Exact chain_AB widgets_AB"
  let ?res = "simulate_on Exact ?inp [''A'', ''B''] jan_to_mar_2025"
  have "\<not> isl ?res" by code_simp
  then have h1: "?res = Inr (fst (projr ?res), snd (projr ?res))" by (cases ?res) simp_all
  have "?inp ''B'' \<noteq> None" by code_simp
  then have h2: "?inp ''B'' = Some (the (?inp ''B''))" by simp
  have h3: "in_promo_to (the (?inp ''B'')) = None" by code_simp
  from terminal_band_never_promotes [OF h1 h2 h3] h1 h2 h3 show ?thesis by blast
qed

section \<open>Headcount never goes negative on a valid configuration\<close>

lemma spec_valid_band:
  assumes "spec_valid_configuration inp order" and "t \<in> set order"
  obtains b where "inp t = Some b" and "0 \<le> attr b" and "attr b < 1"
    and "0 \<le> promo b" and "promo b \<le> 1" and "0 \<le> hires b" and "0 \<le> starting b"
proof -
  from assms have v: "spec_valid_band inp order t"
    by (simp add: spec_valid_configuration_def list_all_iff)
  then obtain b where b: "inp t = Some b"
    by (cases "inp t") (simp_all add: spec_valid_band_def)
  with v have "0 \<le> attr b \<and> attr b < 1 \<and> 0 \<le> promo b \<and> promo b \<le> 1 \<and>
      0 \<le> hires b \<and> 0 \<le> starting b"
    by (simp add: spec_valid_band_def)
  with b show ?thesis by (intro that [of b]) simp_all
qed

lemma fmul_nonneg: "0 \<le> x \<Longrightarrow> 0 \<le> y \<Longrightarrow> 0 \<le> fmul ar x y"
  by (simp add: fmul_def rnd_nonneg)

lemma fadd_nonneg: "0 \<le> x \<Longrightarrow> 0 \<le> y \<Longrightarrow> 0 \<le> fadd ar x y"
  by (simp add: fadd_def rnd_nonneg)

lemma fsub_nonneg: "y \<le> x \<Longrightarrow> 0 \<le> fsub ar x y"
  by (simp add: fsub_def rnd_nonneg)

lemma fadd_float: "0 \<le> x \<Longrightarrow> 0 \<le> y \<Longrightarrow> rnd ar (fadd ar x y) = fadd ar x y"
  by (simp add: fadd_def rnd_idem_nonneg)

lemma fsub_float: "y \<le> x \<Longrightarrow> rnd ar (fsub ar x y) = fsub ar x y"
  by (simp add: fsub_def rnd_idem_nonneg)

lemma fmul_float: "0 \<le> x \<Longrightarrow> 0 \<le> y \<Longrightarrow> rnd ar (fmul ar x y) = fmul ar x y"
  by (simp add: fmul_def rnd_idem_nonneg)

lemma fadd_ge: "0 \<le> x \<Longrightarrow> rnd ar x = x \<Longrightarrow> 0 \<le> y \<Longrightarrow> x \<le> fadd ar x y"
  using rnd_mono_nonneg [of x "x + y" ar] by (simp add: fadd_def)

lemma fmul_le: 
  assumes "0 \<le> x" and "rnd ar x = x" and "0 \<le> p" and "p \<le> 1"
  shows "fmul ar x p \<le> x"
proof -
  have "x * p \<le> x * 1" using assms(1,4) by (rule mult_left_mono [rotated])
  then have "x * p \<le> x" by simp
  moreover have "0 \<le> x * p" using assms(1,3) by simp
  ultimately have "rnd ar (x * p) \<le> rnd ar x" by (intro rnd_mono_nonneg)
  then show ?thesis by (simp add: fmul_def assms(2))
qed

text \<open>
  The loop that applies the moves keeps every headcount a non-negative float, provided
  every band still to be visited holds at least the amount it is about to give.
\<close>

lemma apply_moves_nonneg:
  assumes wf: "well_formed inp order"
    and mv: "\<forall>t\<in>set order. moves t = Some (a t)"
    and a0: "\<forall>t\<in>set order. 0 \<le> a t"
    and "distinct ts" and "set ts \<subseteq> set order"
    and "\<forall>u\<in>set order. \<exists>h. hc u = Some h \<and> 0 \<le> h \<and> rnd ar h = h \<and> (u \<in> set ts \<longrightarrow> a u \<le> h)"
  shows "\<exists>hc' prs'. apply_moves ar inp moves dt ts (hc, prs) = Inr (hc', prs') \<and>
           (\<forall>u\<in>set order. \<exists>h. hc' u = Some h \<and> 0 \<le> h \<and> rnd ar h = h)"
  using assms(4-)
proof (induction ts arbitrary: hc prs)
  case Nil
  then show ?case by (simp add: apply_moves_def)
next
  case (Cons t ts)
  from Cons.prems have t: "t \<in> set order" and tn: "t \<notin> set ts" and dts: "distinct ts"
    and sub: "set ts \<subseteq> set order" by simp_all
  note inv = Cons.prems(3)
  from inv t obtain h where h: "hc t = Some h" "0 \<le> h" "rnd ar h = h" "a t \<le> h"
    by fastforce
  obtain b where b: "inp t = Some b"
    and bs: "\<forall>s. in_promo_to b = Some s \<longrightarrow> s \<in> set order"
    using well_formed_band [OF wf t] by blast
  show ?case
  proof (cases "in_promo_to b")
    case None
    have step: "apply_body ar inp moves dt t (hc, prs) = Inr (hc, prs)"
      using b None by (rule apply_body_None)
    have "\<forall>u\<in>set order. \<exists>h. hc u = Some h \<and> 0 \<le> h \<and> rnd ar h = h \<and> (u \<in> set ts \<longrightarrow> a u \<le> h)"
      using inv by fastforce
    from Cons.IH [OF dts sub this, of prs] show ?thesis
      using step by (simp add: apply_moves_def)
  next
    case (Some s)
    with bs have s: "s \<in> set order" by simp
    let ?x = "fsub ar h (a t)"
    let ?hc1 = "hc(t \<mapsto> ?x)"
    have x: "0 \<le> ?x" "rnd ar ?x = ?x"
      using h(4) by (simp_all add: fsub_nonneg fsub_float)
    from inv s obtain hs where hs: "hc s = Some hs" "0 \<le> hs" "rnd ar hs = hs"
      "s \<in> set ts \<longrightarrow> a s \<le> hs" by fastforce
    define h' where "h' = (if s = t then ?x else hs)"
    have h': "?hc1 s = Some h'" "0 \<le> h'" "rnd ar h' = h'"
      using x hs by (simp_all add: h'_def)
    have at: "0 \<le> a t" using a0 t by simp
    let ?y = "fadd ar h' (a t)"
    let ?hc2 = "?hc1(s \<mapsto> ?y)"
    have y: "0 \<le> ?y" "rnd ar ?y = ?y" "h' \<le> ?y"
      using h'(2,3) at by (simp_all add: fadd_nonneg fadd_float fadd_ge)
    have mt: "moves t = Some (a t)" using mv t by simp
    let ?e = "\<lparr>Quarter_End = strftime_Y_m dt, From_Band = t, To_Band = s,
               Promoted_HC = py_round1 ar (a t)\<rparr>"
    have step: "apply_body ar inp moves dt t (hc, prs) = Inr (?hc2, prs @ [?e])"
      using b Some mt h(1) h'(1) by (rule apply_body_Some)
    have "\<forall>u\<in>set order. \<exists>h. ?hc2 u = Some h \<and> 0 \<le> h \<and> rnd ar h = h \<and> (u \<in> set ts \<longrightarrow> a u \<le> h)"
    proof
      fix u assume u: "u \<in> set order"
      show "\<exists>h. ?hc2 u = Some h \<and> 0 \<le> h \<and> rnd ar h = h \<and> (u \<in> set ts \<longrightarrow> a u \<le> h)"
      proof (cases "u = s")
        case True
        have "s \<in> set ts \<longrightarrow> a s \<le> ?y"
        proof
          assume st: "s \<in> set ts"
          with tn have "s \<noteq> t" by auto
          then have "h' = hs" by (simp add: h'_def)
          with hs(4) st y(3) show "a s \<le> ?y" by simp
        qed
        with True y show ?thesis by simp
      next
        case False
        show ?thesis
        proof (cases "u = t")
          case True
          with False x tn show ?thesis by simp
        next
          case ut: False
          from inv u obtain hu where "hc u = Some hu" "0 \<le> hu" "rnd ar hu = hu"
            "u \<in> set ts \<longrightarrow> a u \<le> hu" by fastforce
          with False ut show ?thesis by simp
        qed
      qed
    qed
    from Cons.IH [OF dts sub this, of "prs @ [?e]"] obtain hc' prs'
      where r: "apply_moves ar inp moves dt ts (?hc2, prs @ [?e]) = Inr (hc', prs')"
        and p: "\<forall>u\<in>set order. \<exists>h. hc' u = Some h \<and> 0 \<le> h \<and> rnd ar h = h"
      by blast
    have "apply_moves ar inp moves dt (t # ts) (hc, prs) = Inr (hc', prs')"
      using r by (simp only: apply_moves_def for_each.simps step bind_Inr)
    with p show ?thesis by blast
  qed
qed

lemma amount_bounds:
  assumes v: "spec_valid_configuration inp order" and t: "t \<in> set order"
    and h: "hc t = Some h" "0 \<le> h" "rnd ar h = h"
  shows "0 \<le> amount ar inp hc t" and "amount ar inp hc t \<le> h"
proof -
  obtain b where b: "inp t = Some b" "0 \<le> promo b" "promo b \<le> 1"
    using spec_valid_band [OF v t] by blast
  show "0 \<le> amount ar inp hc t"
    using b h by (cases "in_promo_to b") (simp_all add: amount_def fmul_nonneg)
  show "amount ar inp hc t \<le> h"
    using b h by (cases "in_promo_to b") (simp_all add: amount_def fmul_le)
qed

lemma promotions_nonneg:
  assumes v: "spec_valid_configuration inp order"
    and inv: "\<forall>u\<in>set order. \<exists>h. hc u = Some h \<and> 0 \<le> h \<and> rnd ar h = h"
  shows "\<exists>hc' prs'. promotions ar inp order dt (hc, prs) = Inr (hc', prs') \<and>
           (\<forall>u\<in>set order. \<exists>h. hc' u = Some h \<and> 0 \<le> h \<and> rnd ar h = h)"
proof -
  note wf = spec_valid_well_formed [OF v]
  have d: "set order \<subseteq> dom hc" using inv by fastforce
  let ?moves = "\<lambda>t. if t \<in> set order then Some (amount ar inp hc t) else None"
  have 1: "compute_moves ar inp order hc = Inr ?moves"
    using d well_formed_dom [OF wf] by (rule compute_moves_eq)
  have "\<exists>hc' prs'. apply_moves ar inp ?moves dt order (hc, prs) = Inr (hc', prs') \<and>
           (\<forall>u\<in>set order. \<exists>h. hc' u = Some h \<and> 0 \<le> h \<and> rnd ar h = h)"
  proof (rule apply_moves_nonneg [OF wf, where a = "amount ar inp hc"])
    show "\<forall>t\<in>set order. ?moves t = Some (amount ar inp hc t)" by simp
    show "\<forall>t\<in>set order. 0 \<le> amount ar inp hc t"
      using inv amount_bounds(1) [OF v] by fastforce
    show "distinct order" using wf by (rule well_formed_distinct)
    show "set order \<subseteq> set order" by simp
    show "\<forall>u\<in>set order. \<exists>h. hc u = Some h \<and> 0 \<le> h \<and> rnd ar h = h \<and>
        (u \<in> set order \<longrightarrow> amount ar inp hc u \<le> h)"
      using inv amount_bounds(2) [OF v] by fastforce
  qed
  then show ?thesis by (simp add: promotions_def 1)
qed

text \<open>One month on a valid configuration, from a state without negative headcount.\<close>

lemma month_nonneg:
  assumes v: "spec_valid_configuration inp order"
    and inv: "\<forall>t\<in>set order. \<exists>h. hc t = Some h \<and> 0 \<le> h"
  obtains hc1 hc2 hc3 prs' r
  where "attrition ar inp order hc = Inr hc1"
    and "add_hires ar inp order hc1 = Inr hc2"
    and "if is_quarter_end dt then promotions ar inp order dt (hc2, prs) = Inr (hc3, prs')
         else hc3 = hc2 \<and> prs' = prs"
    and "month_body ar inp order dt (hc, rows, prs) = Inr (hc3, rows @ [r], prs')"
    and "\<forall>t\<in>set order. \<exists>h1 h2 h3. hc1 t = Some h1 \<and> 0 \<le> h1 \<and> hc2 t = Some h2 \<and> 0 \<le> h2 \<and>
           hc3 t = Some h3 \<and> 0 \<le> h3 \<and> cols r t = Some h3"
proof -
  note wf = spec_valid_well_formed [OF v]
  have d: "set order \<subseteq> dom hc" using inv by fastforce
  obtain hc1 hc2 hc3 prs' r
    where a1: "attrition ar inp order hc = Inr hc1"
      and f1: "\<forall>t\<in>set order. hc1 t = Some (fmul ar (the (hc t)) (fsub ar 1 (attr (the (inp t)))))"
      and a2: "add_hires ar inp order hc1 = Inr hc2"
      and f2: "\<forall>t\<in>set order. hc2 t = Some (fadd ar (the (hc1 t)) (hires (the (inp t))))"
      and a3: "is_quarter_end dt \<longrightarrow> promotions ar inp order dt (hc2, prs) = Inr (hc3, prs') \<and>
           prs' = prs @ promotion_events ar inp hc2 dt order"
      and a3': "\<not> is_quarter_end dt \<longrightarrow> hc3 = hc2 \<and> prs' = prs"
      and a4: "record_row ar order dt hc3 = Inr r"
      and f4: "\<forall>t\<in>set order. cols r t = Some (max 0 (the (hc3 t)))"
      and a5: "month_body ar inp order dt (hc, rows, prs) = Inr (hc3, rows @ [r], prs')"
      and d1: "dom hc1 = dom hc" and d2: "dom hc2 = dom hc" and d3: "dom hc3 = dom hc"
    by (rule month_steps [OF wf d])
  have n1: "\<forall>t\<in>set order. \<exists>h. hc1 t = Some h \<and> 0 \<le> h"
  proof
    fix t assume t: "t \<in> set order"
    obtain b where b: "inp t = Some b" "0 \<le> attr b" "attr b < 1"
      using spec_valid_band [OF v t] by blast
    from inv t obtain h where h: "hc t = Some h" "0 \<le> h" by blast
    have "0 \<le> fsub ar 1 (attr b)" using b(3) by (intro fsub_nonneg) simp
    with h(2) have "0 \<le> fmul ar h (fsub ar 1 (attr b))" by (rule fmul_nonneg)
    with f1 t b(1) h(1) show "\<exists>h. hc1 t = Some h \<and> 0 \<le> h" by simp
  qed
  have n2: "\<forall>t\<in>set order. \<exists>h. hc2 t = Some h \<and> 0 \<le> h \<and> rnd ar h = h"
  proof
    fix t assume t: "t \<in> set order"
    obtain b where b: "inp t = Some b" "0 \<le> hires b"
      using spec_valid_band [OF v t] by blast
    from n1 t obtain h where h: "hc1 t = Some h" "0 \<le> h" by blast
    from h(2) b(2) have "0 \<le> fadd ar h (hires b)" "rnd ar (fadd ar h (hires b)) = fadd ar h (hires b)"
      by (simp_all add: fadd_nonneg fadd_float)
    with f2 t b(1) h(1) show "\<exists>h. hc2 t = Some h \<and> 0 \<le> h \<and> rnd ar h = h" by simp
  qed
  have n3: "\<forall>t\<in>set order. \<exists>h. hc3 t = Some h \<and> 0 \<le> h"
  proof (cases "is_quarter_end dt")
    case True
    from promotions_nonneg [OF v n2, of dt prs] obtain hc' prs''
      where "promotions ar inp order dt (hc2, prs) = Inr (hc', prs'')"
        and p: "\<forall>u\<in>set order. \<exists>h. hc' u = Some h \<and> 0 \<le> h \<and> rnd ar h = h" by blast
    with a3 True have "hc' = hc3" by simp
    with p show ?thesis by blast
  next
    case False
    with a3' n2 show ?thesis by blast
  qed
  have a3'': "if is_quarter_end dt then promotions ar inp order dt (hc2, prs) = Inr (hc3, prs')
         else hc3 = hc2 \<and> prs' = prs"
    using a3 a3' by simp
  have "\<forall>t\<in>set order. \<exists>h1 h2 h3. hc1 t = Some h1 \<and> 0 \<le> h1 \<and> hc2 t = Some h2 \<and> 0 \<le> h2 \<and>
           hc3 t = Some h3 \<and> 0 \<le> h3 \<and> cols r t = Some h3"
  proof
    fix t assume t: "t \<in> set order"
    from n1 t obtain h1 where h1: "hc1 t = Some h1" "0 \<le> h1" by blast
    from n2 t obtain h2 where h2: "hc2 t = Some h2" "0 \<le> h2" by blast
    from n3 t obtain h3 where h3: "hc3 t = Some h3" "0 \<le> h3" by blast
    from f4 t h3 have "cols r t = Some h3" by simp
    with h1 h2 h3 show "\<exists>h1 h2 h3. hc1 t = Some h1 \<and> 0 \<le> h1 \<and> hc2 t = Some h2 \<and> 0 \<le> h2 \<and>
           hc3 t = Some h3 \<and> 0 \<le> h3 \<and> cols r t = Some h3" by blast
  qed
  with a1 a2 a3'' a5 show ?thesis by (rule that)
qed

lemma run_months_nonneg:
  assumes v: "spec_valid_configuration inp order"
  shows "\<exists>hc rows prs. run_months ar inp order ds = Inr (hc, rows, prs) \<and>
           (\<forall>t\<in>set order. \<exists>h. hc t = Some h \<and> 0 \<le> h)"
proof (induction ds rule: rev_induct)
  case Nil
  note wf = spec_valid_well_formed [OF v]
  have i: "init_hc inp order =
      Inr (\<lambda>t. if t \<in> set order then Some (starting (the (inp t))) else None)"
    using well_formed_dom [OF wf] by (rule init_hc_eq)
  have "\<forall>t\<in>set order. 0 \<le> starting (the (inp t))"
  proof
    fix t assume t: "t \<in> set order"
    obtain b where "inp t = Some b" "0 \<le> starting b"
      using spec_valid_band [OF v t] by blast
    then show "0 \<le> starting (the (inp t))" by simp
  qed
  then show ?case by (simp add: run_months_def i)
next
  case (snoc d ds)
  then obtain hc rows prs where r: "run_months ar inp order ds = Inr (hc, rows, prs)"
    and inv: "\<forall>t\<in>set order. \<exists>h. hc t = Some h \<and> 0 \<le> h" by blast
  obtain hc1 hc2 hc3 prs' r'
    where "attrition ar inp order hc = Inr hc1"
      and "add_hires ar inp order hc1 = Inr hc2"
      and "if is_quarter_end d then promotions ar inp order d (hc2, prs) = Inr (hc3, prs')
           else hc3 = hc2 \<and> prs' = prs"
      and m: "month_body ar inp order d (hc, rows, prs) = Inr (hc3, rows @ [r'], prs')"
      and n: "\<forall>t\<in>set order. \<exists>h1 h2 h3. hc1 t = Some h1 \<and> 0 \<le> h1 \<and> hc2 t = Some h2 \<and> 0 \<le> h2 \<and>
           hc3 t = Some h3 \<and> 0 \<le> h3 \<and> cols r' t = Some h3"
    by (rule month_nonneg [OF v inv])
  have "\<forall>t\<in>set order. \<exists>h. hc3 t = Some h \<and> 0 \<le> h"
  proof
    fix t assume "t \<in> set order"
    with n obtain h1 h2 h3 where "hc3 t = Some h3" "0 \<le> h3" by blast
    then show "\<exists>h. hc3 t = Some h \<and> 0 \<le> h" by blast
  qed
  with r m show ?case by (simp add: run_months_snoc)
qed



section \<open>Promotions conserve the grand total\<close>

lemma total_headcount_notin:
  "t \<notin> set xs \<Longrightarrow> total_headcount xs (hc(t \<mapsto> v)) = total_headcount xs hc"
  by (induction xs) (auto simp: total_headcount_def)

lemma total_headcount_update:
  "distinct order \<Longrightarrow> t \<in> set order \<Longrightarrow> hc t = Some h \<Longrightarrow>
   total_headcount order (hc(t \<mapsto> v)) = total_headcount order hc - h + v"
proof (induction order)
  case Nil
  then show ?case by simp
next
  case (Cons x xs)
  show ?case
  proof (cases "x = t")
    case True
    with Cons.prems have "t \<notin> set xs" by simp
    then have "total_headcount xs (hc(t \<mapsto> v)) = total_headcount xs hc"
      by (rule total_headcount_notin)
    with True Cons.prems(3) show ?thesis by (simp add: total_headcount_def)
  next
    case False
    with Cons.prems have "total_headcount xs (hc(t \<mapsto> v)) = total_headcount xs hc - h + v"
      by (intro Cons.IH) simp_all
    with False show ?thesis by (simp add: total_headcount_def)
  qed
qed

text \<open>In exact arithmetic a move leaves the grand total as it was.\<close>

lemma apply_moves_total:
  assumes wf: "well_formed inp order"
    and mv: "\<forall>t\<in>set order. moves t = Some (a t)"
    and "set ts \<subseteq> set order" and "set order \<subseteq> dom hc"
  shows "\<exists>hc' prs'. apply_moves Exact inp moves dt ts (hc, prs) = Inr (hc', prs') \<and>
           set order \<subseteq> dom hc' \<and> total_headcount order hc' = total_headcount order hc"
  using assms(3-)
proof (induction ts arbitrary: hc prs)
  case Nil
  then show ?case by (simp add: apply_moves_def)
next
  case (Cons t ts)
  note dist = well_formed_distinct [OF wf]
  from Cons.prems have t: "t \<in> set order" and sub: "set ts \<subseteq> set order" by simp_all
  note d = Cons.prems(2)
  from d t obtain h where h: "hc t = Some h" by auto
  obtain b where b: "inp t = Some b"
    and bs: "\<forall>s. in_promo_to b = Some s \<longrightarrow> s \<in> set order"
    using well_formed_band [OF wf t] by blast
  show ?case
  proof (cases "in_promo_to b")
    case None
    have step: "apply_body Exact inp moves dt t (hc, prs) = Inr (hc, prs)"
      using b None by (rule apply_body_None)
    from Cons.IH [OF sub d, of prs] show ?thesis
      by (simp only: apply_moves_def for_each.simps step bind_Inr)
  next
    case (Some s)
    with bs have s: "s \<in> set order" by simp
    let ?hc1 = "hc(t \<mapsto> fsub Exact h (a t))"
    have d1: "set order \<subseteq> dom ?hc1" using d by auto
    from d s obtain hs where "hc s = Some hs" by auto
    then obtain h' where h': "?hc1 s = Some h'" by (cases "s = t") simp_all
    let ?hc2 = "?hc1(s \<mapsto> fadd Exact h' (a t))"
    have d2: "set order \<subseteq> dom ?hc2" using d1 by auto
    have mt: "moves t = Some (a t)" using mv t by simp
    let ?e = "\<lparr>Quarter_End = strftime_Y_m dt, From_Band = t, To_Band = s,
               Promoted_HC = py_round1 Exact (a t)\<rparr>"
    have step: "apply_body Exact inp moves dt t (hc, prs) = Inr (?hc2, prs @ [?e])"
      using b Some mt h h' by (rule apply_body_Some)
    have "total_headcount order ?hc1 = total_headcount order hc - h + fsub Exact h (a t)"
      using dist t h by (rule total_headcount_update)
    moreover have "total_headcount order ?hc2 =
        total_headcount order ?hc1 - h' + fadd Exact h' (a t)"
      using dist s h' by (rule total_headcount_update)
    ultimately have tot: "total_headcount order ?hc2 = total_headcount order hc"
      by (simp add: fsub_def fadd_def)
    from Cons.IH [OF sub d2, of "prs @ [?e]"] obtain hc' prs'
      where r: "apply_moves Exact inp moves dt ts (?hc2, prs @ [?e]) = Inr (hc', prs')"
        and p: "set order \<subseteq> dom hc'" "total_headcount order hc' = total_headcount order ?hc2"
      by blast
    have "apply_moves Exact inp moves dt (t # ts) (hc, prs) = Inr (hc', prs')"
      using r by (simp only: apply_moves_def for_each.simps step bind_Inr)
    with p tot show ?thesis by auto
  qed
qed

lemma promotions_total:
  assumes wf: "well_formed inp order" and d: "set order \<subseteq> dom hc"
  shows "\<exists>hc' prs'. promotions Exact inp order dt (hc, prs) = Inr (hc', prs') \<and>
           total_headcount order hc' = total_headcount order hc"
proof -
  let ?moves = "\<lambda>t. if t \<in> set order then Some (amount Exact inp hc t) else None"
  have 1: "compute_moves Exact inp order hc = Inr ?moves"
    using d well_formed_dom [OF wf] by (rule compute_moves_eq)
  have "\<exists>hc' prs'. apply_moves Exact inp ?moves dt order (hc, prs) = Inr (hc', prs') \<and>
           set order \<subseteq> dom hc' \<and> total_headcount order hc' = total_headcount order hc"
    by (rule apply_moves_total [OF wf, where a = "amount Exact inp hc"]) (simp_all add: d)
  then show ?thesis by (auto simp: promotions_def 1)
qed



end
